theory Spec2Isabelle
  imports Main
begin

section \<open>The sparse integer set of package intset\<close>

text \<open>
  The package keeps a set of integers from a fixed universe in two slices of equal
  length: \<open>set\<close>, whose first \<open>length\<close> slots are the members, and \<open>keys\<close>, indexed
  by value, holding the slot of each member. The source file carries two variants of
  the implementation; both are embedded here, the first under the source's names and
  the second with the suffix \<open>2\<close>.

  Go's \<open>int\<close> is modelled as \<open>int\<close>: the only arithmetic is \<open>length++\<close> and
  \<open>length-1\<close>, and \<open>length\<close> never leaves the range of slice lengths; values are
  only compared. A run-time panic is the \<open>Inl\<close> branch of every result. Running out
  of memory in \<open>make\<close> is not modelled.

  The operations are given twice. First as functions on the value of a set, the
  record of its length and of the contents of its two slices, which is what a method
  sees of its receiver; the two slices of a set are two arrays. Then, for the first
  variant, on a store of structs and backing arrays, where pointers and shared arrays
  are explicit; the loops on the store run the same loop bodies.
\<close>

subsection \<open>Slices and panics\<close>

datatype panic =
  IndexOutOfRange | SliceBoundsOutOfRange | MakeSliceLenOutOfRange | RandArgNotPositive |
  InvalidPointer

text \<open>\<open>make([]int, n)\<close>: a zeroed slice, or a panic when \<open>n\<close> is negative.\<close>

definition makeslice :: "int \<Rightarrow> panic + int list" where
  "makeslice n = (if n < 0 then Inl MakeSliceLenOutOfRange else Inr (replicate (nat n) 0))"

text \<open>\<open>xs[i]\<close> as an expression.\<close>

definition index :: "int list \<Rightarrow> int \<Rightarrow> panic + int" where
  "index xs i = (if 0 \<le> i \<and> i < int (length xs) then Inr (xs ! nat i) else Inl IndexOutOfRange)"

text \<open>\<open>xs[i] = v\<close>.\<close>

definition assign :: "int list \<Rightarrow> int \<Rightarrow> int \<Rightarrow> panic + int list" where
  "assign xs i v = (if 0 \<le> i \<and> i < int (length xs) then Inr (xs[nat i := v]) else Inl IndexOutOfRange)"

text \<open>\<open>xs[:n]\<close>; the slices of an IntSet are never resliced, so capacity is length.\<close>

definition slice_to :: "int list \<Rightarrow> int \<Rightarrow> panic + int list" where
  "slice_to xs n = (if 0 \<le> n \<and> n \<le> int (length xs) then Inr (take (nat n) xs) else Inl SliceBoundsOutOfRange)"

text \<open>The builtin \<open>copy(dst, src)\<close>: as many elements as both slices have.\<close>

definition copy :: "int list \<Rightarrow> int list \<Rightarrow> int list" where
  "copy dst src = take (min (length dst) (length src)) src @ drop (min (length dst) (length src)) dst"

subsection \<open>The data model\<close>

record IntSet =
  length' :: int
  keys :: "int list"
  set' :: "int list"

definition Length :: "IntSet \<Rightarrow> int" where
  "Length s = length' s"

definition Empty :: "IntSet \<Rightarrow> bool" where
  "Empty s = (length' s = 0)"

definition UniverseSize :: "IntSet \<Rightarrow> int" where
  "UniverseSize s = int (length (keys s))"

subsection \<open>First variant\<close>

definition Contains :: "IntSet \<Rightarrow> int \<Rightarrow> panic + bool" where
  "Contains s value =
     (if value < 0 \<or> int (length (keys s)) \<le> value then Inr False
      else case index (keys s) value of
             Inl e \<Rightarrow> Inl e
           | Inr setSlot \<Rightarrow>
               if setSlot < length' s
               then (case index (set' s) setSlot of Inl e \<Rightarrow> Inl e | Inr m \<Rightarrow> Inr (m = value))
               else Inr False)"

text \<open>The body of the loop of \<open>Add\<close>, for one value.\<close>

definition Add_body :: "IntSet \<Rightarrow> int \<Rightarrow> panic + IntSet" where
  "Add_body s v =
     (if 0 \<le> v \<and> v < int (length (keys s))
      then (case Contains s v of
              Inl e \<Rightarrow> Inl e
            | Inr True \<Rightarrow> Inr s
            | Inr False \<Rightarrow>
                (case assign (keys s) v (length' s) of
                   Inl e \<Rightarrow> Inl e
                 | Inr ks \<Rightarrow>
                     (case assign (set' s) (length' s) v of
                        Inl e \<Rightarrow> Inl e
                      | Inr ms \<Rightarrow> Inr \<lparr>length' = length' s + 1, keys = ks, set' = ms\<rparr>)))
      else Inr s)"

fun Add :: "IntSet \<Rightarrow> int list \<Rightarrow> panic + IntSet" where
  "Add s [] = Inr s"
| "Add s (v # values) = (case Add_body s v of Inl e \<Rightarrow> Inl e | Inr s' \<Rightarrow> Add s' values)"

text \<open>The body of the loop of \<open>Remove\<close> below its \<open>break\<close>.\<close>

definition Remove_body :: "IntSet \<Rightarrow> int \<Rightarrow> panic + IntSet" where
  "Remove_body s v =
     (case Contains s v of
        Inl e \<Rightarrow> Inl e
      | Inr False \<Rightarrow> Inr s
      | Inr True \<Rightarrow>
          (case index (set' s) (length' s - 1) of
             Inl e \<Rightarrow> Inl e
           | Inr valueToMove \<Rightarrow>
               if valueToMove \<noteq> v
               then (case index (keys s) v of
                       Inl e \<Rightarrow> Inl e
                     | Inr valueToReplace \<Rightarrow>
                         (case assign (set' s) valueToReplace valueToMove of
                            Inl e \<Rightarrow> Inl e
                          | Inr ms \<Rightarrow>
                              (case assign (keys s) valueToMove valueToReplace of
                                 Inl e \<Rightarrow> Inl e
                               | Inr ks \<Rightarrow> Inr \<lparr>length' = length' s - 1, keys = ks, set' = ms\<rparr>)))
               else Inr (s\<lparr>length' := length' s - 1\<rparr>)))"

fun Remove :: "IntSet \<Rightarrow> int list \<Rightarrow> panic + IntSet" where
  "Remove s [] = Inr s"
| "Remove s (v # values) =
     (if length' s = 0 then Inr s
      else case Remove_body s v of Inl e \<Rightarrow> Inl e | Inr s' \<Rightarrow> Remove s' values)"

definition New :: "int \<Rightarrow> int list \<Rightarrow> panic + IntSet" where
  "New universeSize values =
     (case makeslice universeSize of
        Inl e \<Rightarrow> Inl e
      | Inr ks \<Rightarrow>
          (case makeslice universeSize of
             Inl e \<Rightarrow> Inl e
           | Inr ms \<Rightarrow> Add \<lparr>length' = 0, keys = ks, set' = ms\<rparr> values))"

definition Copy :: "IntSet \<Rightarrow> panic + IntSet" where
  "Copy s =
     (case slice_to (set' s) (length' s) of
        Inl e \<Rightarrow> Inl e
      | Inr vs \<Rightarrow> New (int (length (keys s))) vs)"

definition Values :: "IntSet \<Rightarrow> panic + int list" where
  "Values s =
     (case makeslice (length' s) of
        Inl e \<Rightarrow> Inl e
      | Inr result \<Rightarrow>
          (case slice_to (set' s) (length' s) of
             Inl e \<Rightarrow> Inl e
           | Inr src \<Rightarrow> Inr (copy result src)))"

text \<open>The methods \<open>Union\<close> and \<open>Difference\<close> with a receiver.\<close>

definition Union_method :: "IntSet \<Rightarrow> IntSet \<Rightarrow> panic + IntSet" where
  "Union_method s other =
     (case slice_to (set' other) (length' other) of Inl e \<Rightarrow> Inl e | Inr vs \<Rightarrow> Add s vs)"

definition Difference_method :: "IntSet \<Rightarrow> IntSet \<Rightarrow> panic + IntSet" where
  "Difference_method s other =
     (case slice_to (set' other) (length' other) of Inl e \<Rightarrow> Inl e | Inr vs \<Rightarrow> Remove s vs)"

text \<open>The functions \<open>Union\<close> and \<open>Difference\<close> of two arguments.\<close>

definition Union' :: "IntSet \<Rightarrow> IntSet \<Rightarrow> panic + IntSet" where
  "Union' lhs rhs = (case Copy lhs of Inl e \<Rightarrow> Inl e | Inr c \<Rightarrow> Union_method c rhs)"

definition Difference :: "IntSet \<Rightarrow> IntSet \<Rightarrow> panic + IntSet" where
  "Difference lhs rhs = (case Copy lhs of Inl e \<Rightarrow> Inl e | Inr c \<Rightarrow> Difference_method c rhs)"

subsection \<open>Choosing a member, rendering\<close>

text \<open>
  \<open>Choose\<close> draws from \<open>crypto/rand\<close>. The draw is a parameter \<open>rand_Int\<close> of the
  model: given \<open>max\<close> it is the outcome of \<open>rand.Int(rand.Reader, max)\<close>, an error or
  a number. \<open>rand.Int\<close> itself panics when \<open>max\<close> is not positive. The variable
  of type \<open>'e\<close> stands for Go's \<open>error\<close> values; \<open>None\<close> is \<open>nil\<close>.
  Both variants have the same text for \<open>Choose\<close>, \<open>String\<close>, \<open>Values\<close>, \<open>Length\<close>
  and \<open>Empty\<close>, which call nothing that differs between the variants.
\<close>

definition Choose :: "(int \<Rightarrow> 'e + int) \<Rightarrow> IntSet \<Rightarrow> panic + int \<times> 'e option" where
  "Choose rand_Int s =
     (if Empty s then Inr (0, None)
      else if length' s \<le> 0 then Inl RandArgNotPositive
      else case rand_Int (length' s) of
             Inl err \<Rightarrow> Inr (0, Some err)
           | Inr ip \<Rightarrow> (case index (set' s) ip of Inl e \<Rightarrow> Inl e | Inr choice \<Rightarrow> Inr (choice, None)))"

text \<open>\<open>fmt.Sprint\<close> of an \<open>int\<close>: its decimal digits, after a minus sign if negative.\<close>

fun digits :: "nat \<Rightarrow> string" where
  "digits n = (if n < 10 then [char_of (48 + n)] else digits (n div 10) @ [char_of (48 + n mod 10)])"

definition Sprint :: "int \<Rightarrow> string" where
  "Sprint v = (if v < 0 then CHR ''-'' # digits (nat (- v)) else digits (nat v))"

text \<open>The loop of \<open>String\<close> over \<open>set[:length]\<close>, with the loop index \<open>i\<close>.\<close>

fun String_loop :: "int \<Rightarrow> int \<Rightarrow> int list \<Rightarrow> string \<Rightarrow> string" where
  "String_loop n i [] result = result"
| "String_loop n i (v # vs) result =
     String_loop n (i + 1) vs
       (if i < n - 1 then result @ Sprint v @ '' '' else result @ Sprint v)"

definition String :: "IntSet \<Rightarrow> panic + string" where
  "String s =
     (case slice_to (set' s) (length' s) of
        Inl e \<Rightarrow> Inl e
      | Inr vs \<Rightarrow> Inr (String_loop (length' s) 0 vs ''['' @ '']''))"

subsection \<open>Second variant\<close>

text \<open>
  The second variant tests \<open>value < len(is.keys)\<close> only, and indexes \<open>is.keys\<close> with
  the value right away; its \<open>Remove\<close> has neither the \<open>break\<close> nor the test
  \<open>valueToMove != v\<close>.
\<close>

definition Contains2 :: "IntSet \<Rightarrow> int \<Rightarrow> panic + bool" where
  "Contains2 s value =
     (if value < int (length (keys s))
      then (case index (keys s) value of
              Inl e \<Rightarrow> Inl e
            | Inr k \<Rightarrow>
                if k < length' s
                then (case index (keys s) value of
                        Inl e \<Rightarrow> Inl e
                      | Inr k' \<Rightarrow>
                          (case index (set' s) k' of Inl e \<Rightarrow> Inl e | Inr m \<Rightarrow> Inr (m = value)))
                else Inr False)
      else Inr False)"

definition Add_body2 :: "IntSet \<Rightarrow> int \<Rightarrow> panic + IntSet" where
  "Add_body2 s v =
     (if 0 \<le> v \<and> v < int (length (keys s))
      then (case Contains2 s v of
              Inl e \<Rightarrow> Inl e
            | Inr True \<Rightarrow> Inr s
            | Inr False \<Rightarrow>
                (case assign (keys s) v (length' s) of
                   Inl e \<Rightarrow> Inl e
                 | Inr ks \<Rightarrow>
                     (case assign (set' s) (length' s) v of
                        Inl e \<Rightarrow> Inl e
                      | Inr ms \<Rightarrow> Inr \<lparr>length' = length' s + 1, keys = ks, set' = ms\<rparr>)))
      else Inr s)"

fun Add2 :: "IntSet \<Rightarrow> int list \<Rightarrow> panic + IntSet" where
  "Add2 s [] = Inr s"
| "Add2 s (v # values) = (case Add_body2 s v of Inl e \<Rightarrow> Inl e | Inr s' \<Rightarrow> Add2 s' values)"

definition Remove_body2 :: "IntSet \<Rightarrow> int \<Rightarrow> panic + IntSet" where
  "Remove_body2 s v =
     (case Contains2 s v of
        Inl e \<Rightarrow> Inl e
      | Inr False \<Rightarrow> Inr s
      | Inr True \<Rightarrow>
          (case index (set' s) (length' s - 1) of
             Inl e \<Rightarrow> Inl e
           | Inr kMoving \<Rightarrow>
               (case index (keys s) v of
                  Inl e \<Rightarrow> Inl e
                | Inr kToBeReplaced \<Rightarrow>
                    (case assign (set' s) kToBeReplaced kMoving of
                       Inl e \<Rightarrow> Inl e
                     | Inr ms \<Rightarrow>
                         (case assign (keys s) kMoving kToBeReplaced of
                            Inl e \<Rightarrow> Inl e
                          | Inr ks \<Rightarrow> Inr \<lparr>length' = length' s - 1, keys = ks, set' = ms\<rparr>)))))"

fun Remove2 :: "IntSet \<Rightarrow> int list \<Rightarrow> panic + IntSet" where
  "Remove2 s [] = Inr s"
| "Remove2 s (v # values) =
     (case Remove_body2 s v of Inl e \<Rightarrow> Inl e | Inr s' \<Rightarrow> Remove2 s' values)"

definition New2 :: "int \<Rightarrow> int list \<Rightarrow> panic + IntSet" where
  "New2 size' values =
     (case makeslice size' of
        Inl e \<Rightarrow> Inl e
      | Inr ks \<Rightarrow>
          (case makeslice size' of
             Inl e \<Rightarrow> Inl e
           | Inr ms \<Rightarrow> Add2 \<lparr>length' = 0, keys = ks, set' = ms\<rparr> values))"

definition Copy2 :: "IntSet \<Rightarrow> panic + IntSet" where
  "Copy2 s =
     (case slice_to (set' s) (length' s) of
        Inl e \<Rightarrow> Inl e
      | Inr vs \<Rightarrow> New2 (int (length (keys s))) vs)"

definition Capacity :: "IntSet \<Rightarrow> int" where
  "Capacity s = int (length (keys s))"

definition Union_method2 :: "IntSet \<Rightarrow> IntSet \<Rightarrow> panic + IntSet" where
  "Union_method2 s rhs =
     (case slice_to (set' rhs) (length' rhs) of Inl e \<Rightarrow> Inl e | Inr vs \<Rightarrow> Add2 s vs)"

definition Difference_method2 :: "IntSet \<Rightarrow> IntSet \<Rightarrow> panic + IntSet" where
  "Difference_method2 s rhs =
     (case slice_to (set' rhs) (length' rhs) of Inl e \<Rightarrow> Inl e | Inr vs \<Rightarrow> Remove2 s vs)"

definition Union2 :: "IntSet \<Rightarrow> IntSet \<Rightarrow> panic + IntSet" where
  "Union2 lhs rhs = (case Copy2 lhs of Inl e \<Rightarrow> Inl e | Inr c \<Rightarrow> Union_method2 c rhs)"

definition Difference2 :: "IntSet \<Rightarrow> IntSet \<Rightarrow> panic + IntSet" where
  "Difference2 lhs rhs = (case Copy2 lhs of Inl e \<Rightarrow> Inl e | Inr c \<Rightarrow> Difference_method2 c rhs)"

subsection \<open>The representation invariant\<close>

definition members :: "IntSet \<Rightarrow> int list" where
  "members s = take (nat (length' s)) (set' s)"

definition rep_inv :: "IntSet \<Rightarrow> bool" where
  "rep_inv s \<longleftrightarrow>
     0 \<le> length' s \<and> length' s \<le> int (length (keys s)) \<and>
     length (set' s) = length (keys s) \<and>
     distinct (members s) \<and>
     (\<forall>i \<in> {0 ..< nat (length' s)}.
        0 \<le> set' s ! i \<and> set' s ! i < int (length (keys s)) \<and>
        keys s ! nat (set' s ! i) = int i) \<and>
     (\<forall>k \<in> set (keys s). 0 \<le> k)"

subsection \<open>Pointers and backing arrays\<close>

text \<open>
  The functions above take a set by value. In the source an \<open>*IntSet\<close> points to a
  struct whose two slices point to backing arrays, methods write through the pointer,
  and a variadic argument \<open>xs...\<close> passes a slice that shares its array with \<open>xs\<close>.
  The store below makes this sharing explicit, for the first variant: a heap holds the
  backing arrays and the structs, an address is a position in these lists, and
  allocation appends. The slices of a struct always span their whole array, so the
  struct records the arrays' addresses only. A slice argument is a pair of the address
  of its array and its length. The package never hands out a nil pointer; an address
  beyond the store is answered by the panic \<open>InvalidPointer\<close>.
\<close>

record IntSet_struct =
  length_field :: int
  keys_field :: nat
  set_field :: nat

record heap =
  arrays :: "int list list"
  structs :: "IntSet_struct list"

type_synonym slice = "nat \<times> nat"

definition alloc_array :: "heap \<Rightarrow> int list \<Rightarrow> nat \<times> heap" where
  "alloc_array h xs = (length (arrays h), h\<lparr>arrays := arrays h @ [xs]\<rparr>)"

definition alloc_struct :: "heap \<Rightarrow> IntSet_struct \<Rightarrow> nat \<times> heap" where
  "alloc_struct h obj = (length (structs h), h\<lparr>structs := structs h @ [obj]\<rparr>)"

text \<open>The set a pointer points to: the length and the contents of both slices.\<close>

definition load :: "heap \<Rightarrow> nat \<Rightarrow> IntSet" where
  "load h p =
     \<lparr>length' = length_field (structs h ! p),
      keys = arrays h ! keys_field (structs h ! p),
      set' = arrays h ! set_field (structs h ! p)\<rparr>"

text \<open>Writing the length and the contents of both slices back through the pointer.\<close>

definition store :: "heap \<Rightarrow> nat \<Rightarrow> IntSet \<Rightarrow> heap" where
  "store h p s =
     \<lparr>arrays = (arrays h)[keys_field (structs h ! p) := keys s, set_field (structs h ! p) := set' s],
      structs = (structs h)[p := (structs h ! p)\<lparr>length_field := length' s\<rparr>]\<rparr>"

definition Contains_h :: "heap \<Rightarrow> nat \<Rightarrow> int \<Rightarrow> panic + bool" where
  "Contains_h h p value =
     (if p < length (structs h) then Contains (load h p) value else Inl InvalidPointer)"

text \<open>
  The loop of \<open>Add\<close> over the positions of the slice \<open>values\<close>, whose array has the
  address \<open>a\<close>: each round reads its value from the heap as it then is, and runs the
  loop body on the receiver.
\<close>

fun Add_range :: "heap \<Rightarrow> nat \<Rightarrow> nat \<Rightarrow> nat list \<Rightarrow> panic + heap" where
  "Add_range h p a [] = Inr h"
| "Add_range h p a (i # is) =
     (case index (arrays h ! a) (int i) of
        Inl e \<Rightarrow> Inl e
      | Inr v \<Rightarrow>
          (case Add_body (load h p) v of
             Inl e \<Rightarrow> Inl e
           | Inr s' \<Rightarrow> Add_range (store h p s') p a is))"

definition Add_h :: "heap \<Rightarrow> nat \<Rightarrow> slice \<Rightarrow> panic + heap" where
  "Add_h h p values =
     (if p < length (structs h) \<and> fst values < length (arrays h)
      then Add_range h p (fst values) [0 ..< snd values]
      else Inl InvalidPointer)"

fun Remove_range :: "heap \<Rightarrow> nat \<Rightarrow> nat \<Rightarrow> nat list \<Rightarrow> panic + heap" where
  "Remove_range h p a [] = Inr h"
| "Remove_range h p a (i # is) =
     (case index (arrays h ! a) (int i) of
        Inl e \<Rightarrow> Inl e
      | Inr v \<Rightarrow>
          if length' (load h p) = 0 then Inr h
          else (case Remove_body (load h p) v of
                  Inl e \<Rightarrow> Inl e
                | Inr s' \<Rightarrow> Remove_range (store h p s') p a is))"

definition Remove_h :: "heap \<Rightarrow> nat \<Rightarrow> slice \<Rightarrow> panic + heap" where
  "Remove_h h p values =
     (if p < length (structs h) \<and> fst values < length (arrays h)
      then Remove_range h p (fst values) [0 ..< snd values]
      else Inl InvalidPointer)"

text \<open>\<open>New\<close>: two fresh arrays, a fresh struct, then \<open>Add\<close> through the new pointer.\<close>

definition New_h :: "heap \<Rightarrow> int \<Rightarrow> slice \<Rightarrow> panic + nat \<times> heap" where
  "New_h h universeSize values =
     (case makeslice universeSize of
        Inl e \<Rightarrow> Inl e
      | Inr ks \<Rightarrow>
          (case makeslice universeSize of
             Inl e \<Rightarrow> Inl e
           | Inr ms \<Rightarrow>
               (let (k, h1) = alloc_array h ks;
                    (m, h2) = alloc_array h1 ms;
                    (result, h3) = alloc_struct h2 \<lparr>length_field = 0, keys_field = k, set_field = m\<rparr>
                in case Add_h h3 result values of
                     Inl e \<Rightarrow> Inl e
                   | Inr h4 \<Rightarrow> Inr (result, h4))))"

text \<open>The slice \<open>is.set[:is.length]\<close> of the struct at \<open>p\<close>: it shares the array of \<open>is.set\<close>.\<close>

definition set_slice :: "heap \<Rightarrow> nat \<Rightarrow> panic + slice" where
  "set_slice h p =
     (if p < length (structs h)
      then (if 0 \<le> length_field (structs h ! p) \<and>
               length_field (structs h ! p) \<le> int (length (arrays h ! set_field (structs h ! p)))
            then Inr (set_field (structs h ! p), nat (length_field (structs h ! p)))
            else Inl SliceBoundsOutOfRange)
      else Inl InvalidPointer)"

definition Copy_h :: "heap \<Rightarrow> nat \<Rightarrow> panic + nat \<times> heap" where
  "Copy_h h p =
     (case set_slice h p of
        Inl e \<Rightarrow> Inl e
      | Inr values \<Rightarrow> New_h h (int (length (arrays h ! keys_field (structs h ! p)))) values)"

definition Union_method_h :: "heap \<Rightarrow> nat \<Rightarrow> nat \<Rightarrow> panic + heap" where
  "Union_method_h h p other =
     (case set_slice h other of Inl e \<Rightarrow> Inl e | Inr values \<Rightarrow> Add_h h p values)"

definition Difference_method_h :: "heap \<Rightarrow> nat \<Rightarrow> nat \<Rightarrow> panic + heap" where
  "Difference_method_h h p other =
     (case set_slice h other of Inl e \<Rightarrow> Inl e | Inr values \<Rightarrow> Remove_h h p values)"

definition Union_h :: "heap \<Rightarrow> nat \<Rightarrow> nat \<Rightarrow> panic + nat \<times> heap" where
  "Union_h h lhs rhs =
     (case Copy_h h lhs of
        Inl e \<Rightarrow> Inl e
      | Inr (c, h1) \<Rightarrow>
          (case Union_method_h h1 c rhs of Inl e \<Rightarrow> Inl e | Inr h2 \<Rightarrow> Inr (c, h2)))"

definition Difference_h :: "heap \<Rightarrow> nat \<Rightarrow> nat \<Rightarrow> panic + nat \<times> heap" where
  "Difference_h h lhs rhs =
     (case Copy_h h lhs of
        Inl e \<Rightarrow> Inl e
      | Inr (c, h1) \<Rightarrow>
          (case Difference_method_h h1 c rhs of Inl e \<Rightarrow> Inl e | Inr h2 \<Rightarrow> Inr (c, h2)))"

text \<open>
  A call from outside the package with the values written out, \<open>New(5, 1, 2, 4)\<close> or
  \<open>s.Add(3)\<close>: Go builds a fresh array for the variadic argument.
\<close>

definition New_call :: "heap \<Rightarrow> int \<Rightarrow> int list \<Rightarrow> panic + nat \<times> heap" where
  "New_call h universeSize vs =
     (let (a, h1) = alloc_array h vs in New_h h1 universeSize (a, length vs))"

definition Add_call :: "heap \<Rightarrow> nat \<Rightarrow> int list \<Rightarrow> panic + heap" where
  "Add_call h p vs = (let (a, h1) = alloc_array h vs in Add_h h1 p (a, length vs))"

definition Remove_call :: "heap \<Rightarrow> nat \<Rightarrow> int list \<Rightarrow> panic + heap" where
  "Remove_call h p vs = (let (a, h1) = alloc_array h vs in Remove_h h1 p (a, length vs))"

text \<open>
  The invariant of the store: every struct owns two arrays of the heap, different from
  each other and from those of every other struct, and the set it points to satisfies
  the representation invariant.
\<close>

definition heap_inv :: "heap \<Rightarrow> bool" where
  "heap_inv h \<longleftrightarrow>
     (\<forall>p \<in> {0 ..< length (structs h)}.
        keys_field (structs h ! p) < length (arrays h) \<and>
        set_field (structs h ! p) < length (arrays h) \<and>
        keys_field (structs h ! p) \<noteq> set_field (structs h ! p) \<and>
        rep_inv (load h p) \<and>
        (\<forall>q \<in> {0 ..< length (structs h)}. p \<noteq> q \<longrightarrow>
           keys_field (structs h ! p) \<noteq> keys_field (structs h ! q) \<and>
           keys_field (structs h ! p) \<noteq> set_field (structs h ! q) \<and>
           set_field (structs h ! p) \<noteq> set_field (structs h ! q)))"

text \<open>
  The heaps a program can reach from the empty heap by calls of \<open>New\<close>, \<open>Add\<close>,
  \<open>Remove\<close>, \<open>Copy\<close>, and \<open>Union\<close> and \<open>Difference\<close> in both forms, on any pointers
  it holds, the receiver and the argument being the same pointer or not.
\<close>

inductive reachable :: "heap \<Rightarrow> bool" where
  reachable_empty: "reachable \<lparr>arrays = [], structs = []\<rparr>"
| reachable_New: "reachable h \<Longrightarrow> New_call h universeSize vs = Inr (p, h') \<Longrightarrow> reachable h'"
| reachable_Add: "reachable h \<Longrightarrow> p < length (structs h) \<Longrightarrow> Add_call h p vs = Inr h' \<Longrightarrow> reachable h'"
| reachable_Remove: "reachable h \<Longrightarrow> p < length (structs h) \<Longrightarrow> Remove_call h p vs = Inr h' \<Longrightarrow> reachable h'"
| reachable_Copy: "reachable h \<Longrightarrow> p < length (structs h) \<Longrightarrow> Copy_h h p = Inr (c, h') \<Longrightarrow> reachable h'"
| reachable_Union_method:
    "reachable h \<Longrightarrow> p < length (structs h) \<Longrightarrow> q < length (structs h) \<Longrightarrow>
     Union_method_h h p q = Inr h' \<Longrightarrow> reachable h'"
| reachable_Difference_method:
    "reachable h \<Longrightarrow> p < length (structs h) \<Longrightarrow> q < length (structs h) \<Longrightarrow>
     Difference_method_h h p q = Inr h' \<Longrightarrow> reachable h'"
| reachable_Union:
    "reachable h \<Longrightarrow> p < length (structs h) \<Longrightarrow> q < length (structs h) \<Longrightarrow>
     Union_h h p q = Inr (r, h') \<Longrightarrow> reachable h'"
| reachable_Difference:
    "reachable h \<Longrightarrow> p < length (structs h) \<Longrightarrow> q < length (structs h) \<Longrightarrow>
     Difference_h h p q = Inr (r, h') \<Longrightarrow> reachable h'"

section \<open>Properties\<close>

subsection \<open>Slices\<close>

lemma index_Inr: "0 \<le> i \<Longrightarrow> i < int (length xs) \<Longrightarrow> index xs i = Inr (xs ! nat i)"
  by (simp add: index_def)

lemma assign_Inr: "0 \<le> i \<Longrightarrow> i < int (length xs) \<Longrightarrow> assign xs i v = Inr (xs[nat i := v])"
  by (simp add: assign_def)

subsection \<open>The invariant and the loop bodies of the first variant\<close>

lemma members_length: "rep_inv s \<Longrightarrow> length (members s) = nat (length' s)"
  by (auto simp: rep_inv_def members_def)

lemma members_nth: "i < nat (length' s) \<Longrightarrow> members s ! i = set' s ! i"
  by (simp add: members_def)

lemma mem_members_iff:
  "rep_inv s \<Longrightarrow> v \<in> set (members s) \<longleftrightarrow> (\<exists>i < nat (length' s). set' s ! i = v)"
  by (auto simp: in_set_conv_nth members_length members_nth)

lemma rep_inv_slot:
  "rep_inv s \<Longrightarrow> i < nat (length' s) \<Longrightarrow>
     0 \<le> set' s ! i \<and> set' s ! i < int (length (keys s)) \<and> keys s ! nat (set' s ! i) = int i"
  by (simp add: rep_inv_def)

lemma rep_inv_keys_nonneg: "rep_inv s \<Longrightarrow> 0 \<le> v \<Longrightarrow> v < int (length (keys s)) \<Longrightarrow> 0 \<le> keys s ! nat v"
  by (simp add: rep_inv_def)

lemma members_in_universe:
  "rep_inv s \<Longrightarrow> v \<in> set (members s) \<Longrightarrow> 0 \<le> v \<and> v < int (length (keys s))"
  by (auto simp: mem_members_iff dest: rep_inv_slot)

lemma Contains_members:
  assumes inv: "rep_inv s"
  shows "Contains s v = Inr (v \<in> set (members s))"
proof (cases "v < 0 \<or> int (length (keys s)) \<le> v")
  case True
  with inv have "v \<notin> set (members s)" by (auto dest: members_in_universe)
  with True show ?thesis by (simp add: Contains_def)
next
  case False
  then have v: "0 \<le> v" "v < int (length (keys s))" by auto
  let ?k = "keys s ! nat v"
  have k0: "0 \<le> ?k" using inv v by (rule rep_inv_keys_nonneg)
  have len: "length (set' s) = length (keys s)" "length' s \<le> int (length (keys s))"
    using inv by (auto simp: rep_inv_def)
  show ?thesis
  proof (cases "?k < length' s")
    case True
    then have kn: "nat ?k < nat (length' s)" using k0 by simp
    have "(set' s ! nat ?k = v) = (v \<in> set (members s))"
    proof
      assume "set' s ! nat ?k = v"
      with kn show "v \<in> set (members s)" using inv mem_members_iff by blast
    next
      assume "v \<in> set (members s)"
      then obtain i where i: "i < nat (length' s)" "set' s ! i = v"
        using inv by (auto simp: mem_members_iff)
      then have "?k = int i" using rep_inv_slot [OF inv i(1)] by simp
      with i show "set' s ! nat ?k = v" by simp
    qed
    with True v k0 len show ?thesis by (simp add: Contains_def index_def)
  next
    case False
    have "v \<notin> set (members s)"
    proof
      assume "v \<in> set (members s)"
      then obtain i where i: "i < nat (length' s)" "set' s ! i = v"
        using inv by (auto simp: mem_members_iff)
      then have "?k = int i" using rep_inv_slot [OF inv i(1)] by simp
      with i False show False by simp
    qed
    with False v show ?thesis by (simp add: Contains_def index_def)
  qed
qed

lemma members_full:
  assumes inv: "rep_inv s" and full: "length' s = int (length (keys s))"
    and v: "0 \<le> v" "v < int (length (keys s))"
  shows "v \<in> set (members s)"
proof -
  let ?U = "{0 ..< int (length (keys s))}"
  have sub: "set (members s) \<subseteq> ?U" using inv by (auto dest: members_in_universe)
  have "card (set (members s)) = length (members s)"
    using inv by (simp add: rep_inv_def distinct_card)
  also have "\<dots> = card ?U" using inv full by (simp add: members_length)
  finally have "set (members s) = ?U" using sub by (simp add: card_subset_eq)
  with v show ?thesis by simp
qed


lemma Add_body_outside:
  "\<not> (0 \<le> v \<and> v < int (length (keys s))) \<Longrightarrow> Add_body s v = Inr s"
  by (auto simp: Add_body_def)

lemma Add_body_member:
  "rep_inv s \<Longrightarrow> v \<in> set (members s) \<Longrightarrow> Add_body s v = Inr s"
  by (simp add: Add_body_def Contains_members)

lemma Add_body_new:
  assumes inv: "rep_inv s" and v: "0 \<le> v" "v < int (length (keys s))"
    and nm: "v \<notin> set (members s)"
  defines "s' \<equiv> \<lparr>length' = length' s + 1, keys = (keys s)[nat v := length' s],
                  set' = (set' s)[nat (length' s) := v]\<rparr>"
  shows "Add_body s v = Inr s'" and "rep_inv s'" and "members s' = members s @ [v]"
proof -
  let ?n = "nat (length' s)"
  have n0: "0 \<le> length' s" and nU: "length' s \<le> int (length (keys s))"
    and len: "length (set' s) = length (keys s)"
    and dist: "distinct (members s)"
    and knn: "\<forall>k \<in> set (keys s). 0 \<le> k"
    using inv by (auto simp: rep_inv_def)
  have "length' s \<noteq> int (length (keys s))"
    using members_full [OF inv _ v] nm by blast
  with nU have lt: "length' s < int (length (keys s))" by simp
  show "Add_body s v = Inr s'"
    using v lt n0 len nm inv
    by (simp add: Add_body_def Contains_members assign_def s'_def)
  have n': "nat (length' s + 1) = Suc ?n" using n0 by simp
  have nlen: "?n < length (set' s)" using lt n0 len by simp
  show mem: "members s' = members s @ [v]"
    using nlen by (simp add: members_def s'_def n' take_Suc_conv_app_nth)
  have slots: "0 \<le> set' s' ! i \<and> set' s' ! i < int (length (keys s')) \<and>
      keys s' ! nat (set' s' ! i) = int i" if i: "i < Suc ?n" for i
  proof (cases "i = ?n")
    case True
    with v nlen n0 show ?thesis by (simp add: s'_def)
  next
    case False
    with i have i': "i < ?n" by simp
    note sl = rep_inv_slot [OF inv i']
    have "set' s ! i \<in> set (members s)" using i' inv mem_members_iff by blast
    with nm have "set' s ! i \<noteq> v" by auto
    then have "nat (set' s ! i) \<noteq> nat v" using sl v by (simp add: nat_eq_iff)
    with sl False show ?thesis by (simp add: s'_def)
  qed
  have "\<forall>k \<in> set (keys s'). 0 \<le> k"
  proof
    fix k assume "k \<in> set (keys s')"
    then have "k \<in> insert (length' s) (set (keys s))"
      using set_update_subset_insert [of "keys s" "nat v" "length' s"] by (auto simp: s'_def)
    with knn n0 show "0 \<le> k" by auto
  qed
  then show "rep_inv s'"
    unfolding rep_inv_def mem n'
    using slots dist nm n0 lt len by (simp add: s'_def)
qed


lemma rep_invI:
  assumes n: "0 \<le> length' s" "length' s \<le> int (length (keys s))"
    and len: "length (set' s) = length (keys s)"
    and slots: "\<And>i. i < nat (length' s) \<Longrightarrow>
       0 \<le> set' s ! i \<and> set' s ! i < int (length (keys s)) \<and> keys s ! nat (set' s ! i) = int i"
    and knn: "\<And>k. k \<in> set (keys s) \<Longrightarrow> 0 \<le> k"
  shows "rep_inv s"
proof -
  have "distinct (members s)"
    unfolding distinct_conv_nth
  proof (intro allI impI)
    fix i j assume ij: "i < length (members s)" "j < length (members s)" "i \<noteq> j"
    then have i: "i < nat (length' s)" and j: "j < nat (length' s)"
      by (simp_all add: members_def)
    show "members s ! i \<noteq> members s ! j"
    proof
      assume "members s ! i = members s ! j"
      then have eq: "set' s ! i = set' s ! j" using i j by (simp add: members_nth)
      have "int i = keys s ! nat (set' s ! i)" using slots [OF i] by simp
      also have "\<dots> = keys s ! nat (set' s ! j)" by (simp only: eq)
      also have "\<dots> = int j" using slots [OF j] by simp
      finally show False using ij by simp
    qed
  qed
  moreover have "\<forall>i \<in> {0 ..< nat (length' s)}.
      0 \<le> set' s ! i \<and> set' s ! i < int (length (keys s)) \<and> keys s ! nat (set' s ! i) = int i"
    using slots by simp
  moreover have "\<forall>k \<in> set (keys s). 0 \<le> k" using knn by blast
  ultimately show ?thesis unfolding rep_inv_def using n len by blast
qed

lemma Remove_body_absent:
  "rep_inv s \<Longrightarrow> v \<notin> set (members s) \<Longrightarrow> Remove_body s v = Inr s"
  by (simp add: Remove_body_def Contains_members)

lemma Remove_body_member:
  assumes inv: "rep_inv s" and m: "v \<in> set (members s)"
  shows "\<exists>s'. Remove_body s v = Inr s' \<and> rep_inv s' \<and> length' s' = length' s - 1 \<and>
           length (keys s') = length (keys s) \<and> set (members s') = set (members s) - {v}"
proof -
  let ?n = "nat (length' s)"
  have n0: "0 \<le> length' s" and nU: "length' s \<le> int (length (keys s))"
    and len: "length (set' s) = length (keys s)"
    and dist: "distinct (members s)"
    and knn: "\<And>k. k \<in> set (keys s) \<Longrightarrow> 0 \<le> k"
    using inv by (auto simp: rep_inv_def)
  from m obtain k where k: "k < ?n" "set' s ! k = v"
    using inv mem_members_iff by blast
  note vs = rep_inv_slot [OF inv k(1), unfolded k(2)]
  have npos: "0 < length' s" using k by simp
  then have last: "?n - 1 < ?n" by simp
  let ?w = "set' s ! (?n - 1)"
  note ws = rep_inv_slot [OF inv last]
  have wlt: "nat ?w < length (keys s)" using ws by linarith
  have nat1: "nat (length' s - 1) = ?n - 1" by (simp add: nat_diff_distrib')
  have idx_last: "index (set' s) (length' s - 1) = Inr ?w"
    using npos nU len by (simp add: index_def nat1)
  have idx_v: "index (keys s) v = Inr (int k)"
    using vs by (simp add: index_def)
  have inj: "i = j" if "i < ?n" "j < ?n" "set' s ! i = set' s ! j" for i j
  proof -
    have "int i = keys s ! nat (set' s ! i)" using rep_inv_slot [OF inv that(1)] by simp
    also have "\<dots> = keys s ! nat (set' s ! j)" by (simp only: that(3))
    also have "\<dots> = int j" using rep_inv_slot [OF inv that(2)] by simp
    finally show ?thesis by simp
  qed
  show ?thesis
  proof (cases "?w = v")
    case True
    then have kl: "k = ?n - 1" using inj [OF k(1) last] k(2) by simp
    let ?s' = "s\<lparr>length' := length' s - 1\<rparr>"
    have rb: "Remove_body s v = Inr ?s'"
      using True m inv idx_last by (simp add: Remove_body_def Contains_members)
    have inv': "rep_inv ?s'"
    proof (rule rep_invI)
      fix i assume "i < nat (length' ?s')"
      then have "i < ?n" by simp
      from rep_inv_slot [OF inv this] show "0 \<le> set' ?s' ! i \<and> set' ?s' ! i < int (length (keys ?s')) \<and>
         keys ?s' ! nat (set' ?s' ! i) = int i" by simp
    qed (use npos nU len knn in auto)
    have "set (members ?s') = set (members s) - {v}"
    proof (intro set_eqI iffI)
      fix x assume "x \<in> set (members ?s')"
      then obtain i where i: "i < ?n - 1" "set' s ! i = x"
        using inv' by (auto simp: mem_members_iff nat1)
      then have i': "i < ?n" by simp
      have "x \<noteq> v" using inj [OF i' k(1)] i k kl by auto
      moreover have "x \<in> set (members s)" using i i' inv mem_members_iff [of s x] by auto
      ultimately show "x \<in> set (members s) - {v}" by simp
    next
      fix x assume "x \<in> set (members s) - {v}"
      then obtain i where i: "i < ?n" "set' s ! i = x" "x \<noteq> v"
        using inv by (auto simp: mem_members_iff)
      then have "i \<noteq> k" using k by auto
      with i kl have "i < ?n - 1" by simp
      with i show "x \<in> set (members ?s')" using inv' by (auto simp: mem_members_iff nat1)
    qed
    with rb inv' show ?thesis by auto
  next
    case False
    then have kl: "k \<noteq> ?n - 1" using k by auto
    with k have klt: "k < ?n - 1" by simp
    let ?s' = "\<lparr>length' = length' s - 1, keys = (keys s)[nat ?w := int k],
                 set' = (set' s)[k := ?w]\<rparr>"
    have rb: "Remove_body s v = Inr ?s'"
      using False m inv idx_last idx_v k ws nU len
      by (simp add: Remove_body_def Contains_members assign_def)
    have slot': "0 \<le> set' ?s' ! i \<and> set' ?s' ! i < int (length (keys ?s')) \<and>
         keys ?s' ! nat (set' ?s' ! i) = int i" if i: "i < ?n - 1" for i
    proof (cases "i = k")
      case True
      with ws wlt k nU len show ?thesis by simp
    next
      case ik: False
      from i have i': "i < ?n" by simp
      note sl = rep_inv_slot [OF inv i']
      have "set' s ! i \<noteq> ?w" using inj [OF i' last] i by auto
      then have "nat (set' s ! i) \<noteq> nat ?w" using sl ws by (simp add: nat_eq_iff)
      with sl ik show ?thesis by simp
    qed
    have inv': "rep_inv ?s'"
    proof (rule rep_invI)
      fix x assume "x \<in> set (keys ?s')"
      then have "x \<in> insert (int k) (set (keys s))"
        using set_update_subset_insert [of "keys s" "nat ?w" "int k"] by auto
      then show "0 \<le> x" using knn by auto
    qed (use npos nU len slot' in \<open>auto simp: nat1\<close>)
    have "set (members ?s') = set (members s) - {v}"
    proof (intro set_eqI iffI)
      fix x assume "x \<in> set (members ?s')"
      then obtain i where i: "i < ?n - 1" "set' ?s' ! i = x"
        using inv' by (auto simp: mem_members_iff nat1)
      show "x \<in> set (members s) - {v}"
      proof (cases "i = k")
        case True
        with i k nU len have "x = ?w" by simp
        with False last show ?thesis using inv mem_members_iff [of s x] by auto
      next
        case ik: False
        with i have x: "set' s ! i = x" by simp
        from i have i': "i < ?n" by simp
        have "x \<noteq> v" using inj [OF i' k(1)] k x ik by auto
        moreover have "x \<in> set (members s)" using i' x inv mem_members_iff [of s x] by auto
        ultimately show ?thesis by simp
      qed
    next
      fix x assume "x \<in> set (members s) - {v}"
      then obtain i where i: "i < ?n" "set' s ! i = x" "x \<noteq> v"
        using inv by (auto simp: mem_members_iff)
      then have ik: "i \<noteq> k" using k by auto
      show "x \<in> set (members ?s')"
      proof (cases "i = ?n - 1")
        case True
        with i have "set' ?s' ! k = x" using k nU len by simp
        with klt show ?thesis using inv' mem_members_iff [of ?s' x] by (auto simp: nat1)
      next
        case False
        with i have "i < ?n - 1" by simp
        moreover have "set' ?s' ! i = x" using i ik by simp
        ultimately show ?thesis using inv' mem_members_iff [of ?s' x] by (auto simp: nat1)
      qed
    qed
    with rb inv' show ?thesis by auto
  qed
qed

subsection \<open>The loops, the constructor and the copy of the first variant\<close>

lemma Add_body_correct:
  assumes inv: "rep_inv s"
  shows "\<exists>s'. Add_body s v = Inr s' \<and> rep_inv s' \<and> length (keys s') = length (keys s) \<and>
           set (members s') =
             (if 0 \<le> v \<and> v < int (length (keys s)) then insert v (set (members s))
              else set (members s))"
proof (cases "0 \<le> v \<and> v < int (length (keys s))")
  case False
  with inv show ?thesis using Add_body_outside [OF False] by auto
next
  case True
  show ?thesis
  proof (cases "v \<in> set (members s)")
    case m: True
    with inv True show ?thesis by (auto simp: Add_body_member)
  next
    case m: False
    from True have v: "0 \<le> v" "v < int (length (keys s))" by auto
    from Add_body_new [OF inv v m] True show ?thesis by simp
  qed
qed

lemma Add_correct:
  "rep_inv s \<Longrightarrow>
     \<exists>s'. Add s vs = Inr s' \<and> rep_inv s' \<and> length (keys s') = length (keys s) \<and>
       set (members s') = set (members s) \<union> {v \<in> set vs. 0 \<le> v \<and> v < int (length (keys s))}"
proof (induction vs arbitrary: s)
  case Nil
  then show ?case by simp
next
  case (Cons v vs)
  from Add_body_correct [OF Cons.prems, of v] obtain s1 where
    s1: "Add_body s v = Inr s1" "rep_inv s1" "length (keys s1) = length (keys s)"
      "set (members s1) = (if 0 \<le> v \<and> v < int (length (keys s)) then insert v (set (members s))
              else set (members s))" by blast
  from Cons.IH [OF s1(2)] obtain s' where
    s': "Add s1 vs = Inr s'" "rep_inv s'" "length (keys s') = length (keys s1)"
      "set (members s') = set (members s1) \<union> {v \<in> set vs. 0 \<le> v \<and> v < int (length (keys s1))}"
    by blast
  have "Add s (v # vs) = Inr s'" using s1(1) s'(1) by simp
  moreover have "set (members s') = set (members s) \<union> {x \<in> set (v # vs). 0 \<le> x \<and> x < int (length (keys s))}"
    unfolding s'(4) s1(3) s1(4) by auto
  ultimately show ?case using s'(2,3) s1(3) by auto
qed

lemma Remove_body_correct:
  assumes inv: "rep_inv s"
  shows "\<exists>s'. Remove_body s v = Inr s' \<and> rep_inv s' \<and> length (keys s') = length (keys s) \<and>
           length' s' = (if v \<in> set (members s) then length' s - 1 else length' s) \<and>
           set (members s') = set (members s) - {v}"
proof (cases "v \<in> set (members s)")
  case True
  from Remove_body_member [OF inv True] True show ?thesis by auto
next
  case False
  with inv show ?thesis by (simp add: Remove_body_absent)
qed

lemma members_empty: "length' s = 0 \<Longrightarrow> members s = []"
  by (simp add: members_def)

lemma Remove_correct:
  "rep_inv s \<Longrightarrow>
     \<exists>s'. Remove s vs = Inr s' \<and> rep_inv s' \<and> length (keys s') = length (keys s) \<and>
       set (members s') = set (members s) - set vs"
proof (induction vs arbitrary: s)
  case Nil
  then show ?case by simp
next
  case (Cons v vs)
  show ?case
  proof (cases "length' s = 0")
    case True
    with Cons.prems show ?thesis by (simp add: members_empty)
  next
    case False
    from Remove_body_correct [OF Cons.prems, of v] obtain s1 where
      s1: "Remove_body s v = Inr s1" "rep_inv s1" "length (keys s1) = length (keys s)"
        "set (members s1) = set (members s) - {v}" by blast
    from Cons.IH [OF s1(2)] obtain s' where
      s': "Remove s1 vs = Inr s'" "rep_inv s'" "length (keys s') = length (keys s1)"
        "set (members s') = set (members s1) - set vs" by blast
    have "Remove s (v # vs) = Inr s'" using False s1(1) s'(1) by simp
    moreover have "set (members s') = set (members s) - set (v # vs)"
      unfolding s'(4) s1(4) by auto
    ultimately show ?thesis using s'(2,3) s1(3) by auto
  qed
qed

lemma rep_inv_initial:
  "rep_inv \<lparr>length' = 0, keys = replicate n 0, set' = replicate n 0\<rparr>"
  by (simp add: rep_inv_def members_def)

lemma New_correct:
  assumes "0 \<le> universeSize"
  shows "\<exists>s. New universeSize vs = Inr s \<and> rep_inv s \<and> int (length (keys s)) = universeSize \<and>
           set (members s) = {v \<in> set vs. 0 \<le> v \<and> v < universeSize}"
proof -
  let ?s0 = "\<lparr>length' = 0, keys = replicate (nat universeSize) 0, set' = replicate (nat universeSize) 0\<rparr>"
  from Add_correct [OF rep_inv_initial, of "nat universeSize" vs] obtain s where
    s: "Add ?s0 vs = Inr s" "rep_inv s" "length (keys s) = length (keys ?s0)"
       "set (members s) = set (members ?s0) \<union> {v \<in> set vs. 0 \<le> v \<and> v < int (length (keys ?s0))}"
    by blast
  have "New universeSize vs = Inr s" using assms s(1) by (simp add: New_def makeslice_def)
  moreover have "set (members s) = {v \<in> set vs. 0 \<le> v \<and> v < universeSize}"
    using s(4) assms by (simp add: members_def)
  ultimately show ?thesis using s(2,3) assms by auto
qed

lemma slice_to_members: "rep_inv s \<Longrightarrow> slice_to (set' s) (length' s) = Inr (members s)"
  by (simp add: rep_inv_def slice_to_def members_def)

lemma Copy_correct:
  assumes inv: "rep_inv s"
  shows "\<exists>c. Copy s = Inr c \<and> rep_inv c \<and> length (keys c) = length (keys s) \<and>
           set (members c) = set (members s)"
proof -
  from New_correct [of "int (length (keys s))" "members s"] obtain c where
    c: "New (int (length (keys s))) (members s) = Inr c" "rep_inv c"
       "int (length (keys c)) = int (length (keys s))"
       "set (members c) = {v \<in> set (members s). 0 \<le> v \<and> v < int (length (keys s))}"
    by auto
  have "Copy s = Inr c" using c(1) inv by (simp add: Copy_def slice_to_members)
  moreover have "set (members c) = set (members s)"
    unfolding c(4) using members_in_universe [OF inv] by auto
  ultimately show ?thesis using c(2,3) by auto
qed

subsection \<open>The membership test\<close>

text \<open>
  On a set that satisfies the invariant the first variant's \<open>Contains\<close> never panics and
  computes the test of the data model. It returns a truth value and no set: the source
  assigns to nothing.
\<close>

lemma Contains_spec:
  assumes "rep_inv s"
  shows "Contains s v = Inr (0 \<le> v \<and> v < UniverseSize s \<and> keys s ! nat v < length' s \<and>
            set' s ! nat (keys s ! nat v) = v)"
proof (cases "v < 0 \<or> int (length (keys s)) \<le> v")
  case True
  then show ?thesis by (auto simp: Contains_def UniverseSize_def)
next
  case False
  then have v: "0 \<le> v" "v < int (length (keys s))" by auto
  have k0: "0 \<le> keys s ! nat v" using assms v by (rule rep_inv_keys_nonneg)
  have "length (set' s) = length (keys s)" "length' s \<le> int (length (keys s))"
    using assms by (auto simp: rep_inv_def)
  with v k0 show ?thesis by (simp add: Contains_def UniverseSize_def index_def)
qed

text \<open>
  Claim C2. \<open>Contains(value)\<close> is to return false for every value below zero, and not
  to fail. The second variant has no test \<open>value < 0\<close>: on the set \<open>New(5)\<close> and
  the value \<open>-1\<close> it indexes \<open>keys\<close> with \<open>-1\<close> and panics. The first variant meets
  the claim, as \<open>Contains_spec\<close> shows.
\<close>

theorem Contains2_negative_panics:
  "New2 5 [] = Inr \<lparr>length' = 0, keys = [0, 0, 0, 0, 0], set' = [0, 0, 0, 0, 0]\<rparr> \<and>
   Contains2 \<lparr>length' = 0, keys = [0, 0, 0, 0, 0], set' = [0, 0, 0, 0, 0]\<rparr> (- 1) = Inl IndexOutOfRange"
  by (simp add: New2_def makeslice_def Contains2_def index_def eval_nat_numeral)

subsection \<open>The two variants compared\<close>

text \<open>
  On sets that satisfy the invariant the variants agree wherever the value arguments of
  \<open>Contains\<close> and \<open>Remove\<close> are not negative.
\<close>

lemma Contains2_eq:
  assumes inv: "rep_inv s" and v: "0 \<le> v"
  shows "Contains2 s v = Contains s v"
proof (cases "v < int (length (keys s))")
  case False
  then show ?thesis by (simp add: Contains2_def Contains_def)
next
  case True
  with v have "index (keys s) v = Inr (keys s ! nat v)" by (simp add: index_def)
  with True v show ?thesis by (simp add: Contains2_def Contains_def)
qed

lemma Add_body2_eq: "rep_inv s \<Longrightarrow> Add_body2 s v = Add_body s v"
  by (simp add: Add_body2_def Add_body_def Contains2_eq)

lemma Add2_eq: "rep_inv s \<Longrightarrow> Add2 s vs = Add s vs"
proof (induction vs arbitrary: s)
  case Nil
  then show ?case by simp
next
  case (Cons v vs)
  from Add_body_correct [OF Cons.prems, of v] obtain s1 where
    s1: "Add_body s v = Inr s1" "rep_inv s1" by blast
  with Cons show ?case by (simp add: Add_body2_eq)
qed

lemma Remove_body2_eq:
  assumes inv: "rep_inv s" and v: "0 \<le> v"
  shows "Remove_body2 s v = Remove_body s v"
proof (cases "v \<in> set (members s)")
  case False
  with inv v show ?thesis
    by (simp add: Remove_body2_def Remove_body_def Contains2_eq Contains_members)
next
  case True
  let ?n = "nat (length' s)"
  have nU: "length' s \<le> int (length (keys s))" and len: "length (set' s) = length (keys s)"
    using inv by (auto simp: rep_inv_def)
  from True obtain k where k: "k < ?n" "set' s ! k = v"
    using inv mem_members_iff by blast
  note vs = rep_inv_slot [OF inv k(1), unfolded k(2)]
  have npos: "0 < length' s" using k by simp
  have idx_last: "index (set' s) (length' s - 1) = Inr (set' s ! nat (length' s - 1))"
    using npos nU len by (simp add: index_def)
  have idx_v: "index (keys s) v = Inr (int k)" using vs by (simp add: index_def)
  have c: "Contains s v = Inr True" using inv True by (simp add: Contains_members)
  show ?thesis
  proof (cases "set' s ! nat (length' s - 1) = v")
    case ne: False
    then show ?thesis
      using c v inv idx_last idx_v
      by (simp add: Remove_body2_def Remove_body_def Contains2_eq)
  next
    case eq: True
    have klen: "k < length (set' s)" using k(1) nU len by linarith
    have a1: "assign (set' s) (int k) v = Inr (set' s)"
      using klen k(2) by (simp add: assign_def list_update_same_conv)
    have vlen: "nat v < length (keys s)" using vs by linarith
    have a2: "assign (keys s) v (int k) = Inr (keys s)"
      using vs vlen by (simp add: assign_def list_update_same_conv)
    have "Remove_body2 s v = Inr \<lparr>length' = length' s - 1, keys = keys s, set' = set' s\<rparr>"
      using c v inv idx_last idx_v eq a1 a2
      by (simp add: Remove_body2_def Contains2_eq)
    moreover have "Remove_body s v = Inr (s\<lparr>length' := length' s - 1\<rparr>)"
      using c idx_last eq by (simp add: Remove_body_def)
    ultimately show ?thesis by simp
  qed
qed

lemma Remove2_empty:
  "rep_inv s \<Longrightarrow> length' s = 0 \<Longrightarrow> \<forall>v \<in> set vs. 0 \<le> v \<Longrightarrow> Remove2 s vs = Inr s"
  by (induction vs)
     (simp_all add: Remove_body2_def Contains2_eq Contains_members members_empty)

lemma Remove2_eq:
  "rep_inv s \<Longrightarrow> \<forall>v \<in> set vs. 0 \<le> v \<Longrightarrow> Remove2 s vs = Remove s vs"
proof (induction vs arbitrary: s)
  case Nil
  then show ?case by simp
next
  case (Cons v vs)
  show ?case
  proof (cases "length' s = 0")
    case True
    with Cons.prems show ?thesis using Remove2_empty [of s "v # vs"] by simp
  next
    case False
    from Remove_body_correct [OF Cons.prems(1), of v] obtain s1 where
      s1: "Remove_body s v = Inr s1" "rep_inv s1" by blast
    with Cons False show ?thesis by (simp add: Remove_body2_eq)
  qed
qed

lemma New2_eq: "New2 n vs = New n vs"
proof (cases "n < 0")
  case True
  then show ?thesis by (simp add: New2_def New_def makeslice_def)
next
  case False
  then show ?thesis
    using Add2_eq [OF rep_inv_initial, of "nat n" vs]
    by (simp add: New2_def New_def makeslice_def)
qed

lemma Copy2_eq: "Copy2 s = Copy s"
  by (simp add: Copy2_def Copy_def New2_eq split: sum.splits)

lemma Union2_eq:
  assumes "rep_inv lhs"
  shows "Union2 lhs rhs = Union' lhs rhs"
proof -
  from Copy_correct [OF assms] obtain c where c: "Copy lhs = Inr c" "rep_inv c" by blast
  then show ?thesis
    by (simp add: Union2_def Union'_def Copy2_eq Union_method2_def Union_method_def Add2_eq
             split: sum.splits)
qed

lemma Difference2_eq:
  assumes l: "rep_inv lhs" and r: "rep_inv rhs"
  shows "Difference2 lhs rhs = Difference lhs rhs"
proof -
  from Copy_correct [OF l] obtain c where c: "Copy lhs = Inr c" "rep_inv c" by blast
  have "\<forall>v \<in> set (members rhs). 0 \<le> v" using members_in_universe [OF r] by blast
  with c r show ?thesis
    by (simp add: Difference2_def Difference_def Copy2_eq Difference_method2_def
          Difference_method_def slice_to_members Remove2_eq)
qed

text \<open>
  Claim C3. The two variants are to give the same result and the same set for every
  operation and every argument. They do not: on the set \<open>New(5, 1, 2, 4)\<close>, which both
  variants build alike, \<open>Contains(-1)\<close> and \<open>Remove(-1)\<close> differ between the variants.
\<close>

theorem variants_differ_on_negative:
  "New 5 [1, 2, 4] = Inr \<lparr>length' = 3, keys = [0, 0, 1, 0, 2], set' = [1, 2, 4, 0, 0]\<rparr> \<and>
   New2 5 [1, 2, 4] = Inr \<lparr>length' = 3, keys = [0, 0, 1, 0, 2], set' = [1, 2, 4, 0, 0]\<rparr> \<and>
   Contains \<lparr>length' = 3, keys = [0, 0, 1, 0, 2], set' = [1, 2, 4, 0, 0]\<rparr> (- 1) \<noteq>
   Contains2 \<lparr>length' = 3, keys = [0, 0, 1, 0, 2], set' = [1, 2, 4, 0, 0]\<rparr> (- 1) \<and>
   Remove \<lparr>length' = 3, keys = [0, 0, 1, 0, 2], set' = [1, 2, 4, 0, 0]\<rparr> [- 1] \<noteq>
   Remove2 \<lparr>length' = 3, keys = [0, 0, 1, 0, 2], set' = [1, 2, 4, 0, 0]\<rparr> [- 1]"
  by code_simp

subsection \<open>Adding\<close>

text \<open>
  Claim C4. On a set that satisfies the invariant, for \<open>v\<close> in the universe: after
  \<open>Add(v)\<close> the set contains \<open>v\<close>, and a second \<open>Add(v)\<close> leaves the whole set as the
  first call left it.
\<close>

theorem Add_then_Contains:
  assumes inv: "rep_inv s" and v: "0 \<le> v" "v < UniverseSize s"
  shows "\<exists>s'. Add s [v] = Inr s' \<and> Contains s' v = Inr True \<and>
           Add s' [v] = Inr s' \<and> Add s [v, v] = Inr s'"
proof -
  from Add_body_correct [OF inv, of v] v obtain s' where
    s': "Add_body s v = Inr s'" "rep_inv s'" "length (keys s') = length (keys s)"
        "set (members s') = insert v (set (members s))"
    by (auto simp: UniverseSize_def)
  have m: "v \<in> set (members s')" using s'(4) by simp
  have again: "Add_body s' v = Inr s'" using s'(2) m by (rule Add_body_member)
  have "Contains s' v = Inr True" using s'(2) m by (simp add: Contains_members)
  with s'(1) again show ?thesis by simp
qed

theorem Add_then_Contains_witness:
  "rep_inv \<lparr>length' = 3, keys = [0, 0, 1, 0, 2], set' = [1, 2, 4, 0, 0]\<rparr> \<and>
   (0::int) \<le> 3 \<and> 3 < UniverseSize \<lparr>length' = 3, keys = [0, 0, 1, 0, 2], set' = [1, 2, 4, 0, 0]\<rparr> \<and>
   (\<exists>s'. Add \<lparr>length' = 3, keys = [0, 0, 1, 0, 2], set' = [1, 2, 4, 0, 0]\<rparr> [3] = Inr s' \<and>
      Contains s' 3 = Inr True \<and> Add s' [3] = Inr s' \<and>
      Add \<lparr>length' = 3, keys = [0, 0, 1, 0, 2], set' = [1, 2, 4, 0, 0]\<rparr> [3, 3] = Inr s')"
proof -
  have i: "rep_inv \<lparr>length' = 3, keys = [0, 0, 1, 0, 2], set' = [1, 2, 4, 0, 0]\<rparr>"
    by code_simp
  have u: "3 < UniverseSize \<lparr>length' = 3, keys = [0, 0, 1, 0, 2], set' = [1, 2, 4, 0, 0]\<rparr>"
    by (simp add: UniverseSize_def)
  show ?thesis using i u Add_then_Contains [OF i _ u] by simp
qed

text \<open>
  Claim C5. \<open>Add\<close> of values outside the universe, negative ones included, returns
  the set as it was, in both variants, and does not panic.
\<close>

theorem Add_outside_universe:
  assumes "\<forall>v \<in> set vs. v < 0 \<or> UniverseSize s \<le> v"
  shows "Add s vs = Inr s \<and> Add2 s vs = Inr s"
  using assms
  by (induction vs) (auto simp: Add_body_def Add_body2_def UniverseSize_def)

theorem Add_outside_universe_witness:
  "(- 1 :: int) < 0 \<and>
   UniverseSize \<lparr>length' = 3, keys = [0, 0, 1, 0, 2], set' = [1, 2, 4, 0, 0]\<rparr> \<le> 5 \<and>
   UniverseSize \<lparr>length' = 3, keys = [0, 0, 1, 0, 2], set' = [1, 2, 4, 0, 0]\<rparr> \<le> 7 \<and>
   Add \<lparr>length' = 3, keys = [0, 0, 1, 0, 2], set' = [1, 2, 4, 0, 0]\<rparr> [- 1, 5, 7] =
     Inr \<lparr>length' = 3, keys = [0, 0, 1, 0, 2], set' = [1, 2, 4, 0, 0]\<rparr> \<and>
   Add2 \<lparr>length' = 3, keys = [0, 0, 1, 0, 2], set' = [1, 2, 4, 0, 0]\<rparr> [- 1, 5, 7] =
     Inr \<lparr>length' = 3, keys = [0, 0, 1, 0, 2], set' = [1, 2, 4, 0, 0]\<rparr>"
proof -
  let ?s = "\<lparr>length' = 3, keys = [0, 0, 1, 0, 2], set' = [1, 2, 4, 0, 0]\<rparr>"
  have u: "UniverseSize ?s \<le> 5" "UniverseSize ?s \<le> 7"
    by (simp_all add: UniverseSize_def)
  then have h: "\<forall>v \<in> set [- 1, 5, 7]. v < 0 \<or> UniverseSize ?s \<le> v"
    by simp
  show ?thesis using u Add_outside_universe [OF h] by simp
qed

subsection \<open>Removing\<close>

text \<open>
  The first variant's \<open>Remove(v)\<close>, for every \<open>v\<close>: afterwards \<open>v\<close> is absent; an absent
  \<open>v\<close> leaves the set as it was; a member leaves, the length drops by one and every
  other value keeps its membership.
\<close>

lemma Remove_single:
  assumes inv: "rep_inv s"
  shows "\<exists>s'. Remove s [v] = Inr s' \<and> Contains s' v = Inr False \<and>
           (Contains s v = Inr False \<longrightarrow> s' = s) \<and>
           (Contains s v = Inr True \<longrightarrow> Length s' = Length s - 1 \<and>
              (\<forall>w. w \<noteq> v \<longrightarrow> Contains s' w = Contains s w))"
proof (cases "length' s = 0")
  case True
  with inv show ?thesis by (simp add: Contains_members members_empty)
next
  case False
  from Remove_body_correct [OF inv, of v] obtain s' where
    s': "Remove_body s v = Inr s'" "rep_inv s'"
        "length' s' = (if v \<in> set (members s) then length' s - 1 else length' s)"
        "set (members s') = set (members s) - {v}" by blast
  have "Remove s [v] = Inr s'" using False s'(1) by simp
  moreover have "Contains s' v = Inr False" using s'(2,4) by (simp add: Contains_members)
  moreover have "Contains s v = Inr False \<longrightarrow> s' = s"
    using inv s'(1) by (auto simp: Contains_members Remove_body_absent)
  moreover have "Contains s v = Inr True \<longrightarrow> Length s' = Length s - 1 \<and>
              (\<forall>w. w \<noteq> v \<longrightarrow> Contains s' w = Contains s w)"
    using inv s'(2,3,4) by (auto simp: Contains_members Length_def)
  ultimately show ?thesis by blast
qed

text \<open>
  Claim C6. \<open>Remove(v)\<close> is to be a no-op for every \<open>v\<close> that is not a member, negative
  values included. The second variant's \<open>Remove\<close> calls its \<open>Contains\<close> on the value
  unguarded: on \<open>New(5, 1)\<close>, \<open>Remove(-1)\<close> panics, where the first variant returns the
  set unchanged.
\<close>

theorem Remove2_negative_panics:
  "New2 5 [1] = Inr \<lparr>length' = 1, keys = [0, 0, 0, 0, 0], set' = [1, 0, 0, 0, 0]\<rparr> \<and>
   Remove2 \<lparr>length' = 1, keys = [0, 0, 0, 0, 0], set' = [1, 0, 0, 0, 0]\<rparr> [- 1] = Inl IndexOutOfRange \<and>
   Remove \<lparr>length' = 1, keys = [0, 0, 0, 0, 0], set' = [1, 0, 0, 0, 0]\<rparr> [- 1] =
     Inr \<lparr>length' = 1, keys = [0, 0, 0, 0, 0], set' = [1, 0, 0, 0, 0]\<rparr>"
  by code_simp

subsection \<open>Union and difference\<close>

lemma Union_method_correct:
  assumes s: "rep_inv s" and other: "rep_inv other"
  shows "\<exists>s'. Union_method s other = Inr s' \<and> rep_inv s' \<and> length (keys s') = length (keys s) \<and>
           set (members s') = set (members s) \<union> {v \<in> set (members other). v < int (length (keys s))}"
proof -
  from Add_correct [OF s, of "members other"] obtain s' where
    s': "Add s (members other) = Inr s'" "rep_inv s'" "length (keys s') = length (keys s)"
        "set (members s') = set (members s) \<union>
           {v \<in> set (members other). 0 \<le> v \<and> v < int (length (keys s))}" by blast
  have "Union_method s other = Inr s'"
    using s'(1) other by (simp add: Union_method_def slice_to_members)
  moreover have "set (members s') = set (members s) \<union> {v \<in> set (members other). v < int (length (keys s))}"
    unfolding s'(4) using members_in_universe [OF other] by auto
  ultimately show ?thesis using s'(2,3) by blast
qed

lemma Difference_method_correct:
  assumes s: "rep_inv s" and other: "rep_inv other"
  shows "\<exists>s'. Difference_method s other = Inr s' \<and> rep_inv s' \<and>
           length (keys s') = length (keys s) \<and>
           set (members s') = set (members s) - set (members other)"
proof -
  from Remove_correct [OF s, of "members other"] obtain s' where
    s': "Remove s (members other) = Inr s'" "rep_inv s'" "length (keys s') = length (keys s)"
        "set (members s') = set (members s) - set (members other)" by blast
  have "Difference_method s other = Inr s'"
    using s'(1) other by (simp add: Difference_method_def slice_to_members)
  with s'(2,3,4) show ?thesis by blast
qed

lemma Union_correct:
  assumes A: "rep_inv A" and B: "rep_inv B"
  shows "\<exists>U. Union' A B = Inr U \<and> rep_inv U \<and> length (keys U) = length (keys A) \<and>
           set (members U) = set (members A) \<union> {v \<in> set (members B). v < int (length (keys A))}"
proof -
  from Copy_correct [OF A] obtain c where
    c: "Copy A = Inr c" "rep_inv c" "length (keys c) = length (keys A)"
       "set (members c) = set (members A)" by blast
  from Union_method_correct [OF c(2) B] c show ?thesis by (auto simp: Union'_def)
qed

lemma Difference_correct:
  assumes A: "rep_inv A" and B: "rep_inv B"
  shows "\<exists>D. Difference A B = Inr D \<and> rep_inv D \<and> length (keys D) = length (keys A) \<and>
           set (members D) = set (members A) - set (members B)"
proof -
  from Copy_correct [OF A] obtain c where
    c: "Copy A = Inr c" "rep_inv c" "length (keys c) = length (keys A)"
       "set (members c) = set (members A)" by blast
  from Difference_method_correct [OF c(2) B] c show ?thesis by (auto simp: Difference_def)
qed

text \<open>
  Claim C7. For sets \<open>A\<close> and \<open>B\<close> that satisfy the invariant, of any universe sizes,
  \<open>Union(A, B)\<close> and \<open>Difference(A, B)\<close> return sets; the union has the universe size
  of \<open>A\<close> and contains a value below that size iff \<open>A\<close> or \<open>B\<close> does, and no value from
  that size on; the difference contains a value iff \<open>A\<close> does and \<open>B\<close> does not.
\<close>

theorem Union_Difference_Contains:
  assumes A: "rep_inv A" and B: "rep_inv B"
  shows "\<exists>U D. Union' A B = Inr U \<and> Difference A B = Inr D \<and>
           UniverseSize U = UniverseSize A \<and>
           (\<forall>v. \<exists>a b. Contains A v = Inr a \<and> Contains B v = Inr b \<and>
                  (v < UniverseSize A \<longrightarrow> Contains U v = Inr (a \<or> b)) \<and>
                  (UniverseSize A \<le> v \<longrightarrow> Contains U v = Inr False) \<and>
                  Contains D v = Inr (a \<and> \<not> b))"
proof -
  from Union_correct [OF A B] obtain U where
    U: "Union' A B = Inr U" "rep_inv U" "length (keys U) = length (keys A)"
       "set (members U) = set (members A) \<union> {v \<in> set (members B). v < int (length (keys A))}"
    by blast
  from Difference_correct [OF A B] obtain D where
    D: "Difference A B = Inr D" "rep_inv D"
       "set (members D) = set (members A) - set (members B)" by blast
  have cA: "Contains A v = Inr (v \<in> set (members A))" for v
    using A by (rule Contains_members)
  have cB: "Contains B v = Inr (v \<in> set (members B))" for v
    using B by (rule Contains_members)
  have cU: "Contains U v = Inr (v \<in> set (members U))" for v
    using U(2) by (rule Contains_members)
  have cD: "Contains D v = Inr (v \<in> set (members D))" for v
    using D(2) by (rule Contains_members)
  have inA: "v < UniverseSize A" if "v \<in> set (members A)" for v
    using members_in_universe [OF A that] by (simp add: UniverseSize_def)
  have u1: "v < UniverseSize A \<longrightarrow>
              (v \<in> set (members U)) = (v \<in> set (members A) \<or> v \<in> set (members B))" for v
    unfolding U(4) by (auto simp: UniverseSize_def)
  have u2: "UniverseSize A \<le> v \<longrightarrow> v \<notin> set (members U)" for v
    unfolding U(4) using inA [of v] by (auto simp: UniverseSize_def)
  have d1: "(v \<in> set (members D)) = (v \<in> set (members A) \<and> v \<notin> set (members B))" for v
    unfolding D(3) by simp
  have "\<exists>a b. Contains A v = Inr a \<and> Contains B v = Inr b \<and>
                  (v < UniverseSize A \<longrightarrow> Contains U v = Inr (a \<or> b)) \<and>
                  (UniverseSize A \<le> v \<longrightarrow> Contains U v = Inr False) \<and>
                  Contains D v = Inr (a \<and> \<not> b)" for v
    unfolding cA cB cU cD using u1 [of v] u2 [of v] d1 [of v] by blast
  moreover have "UniverseSize U = UniverseSize A" using U(3) by (simp add: UniverseSize_def)
  ultimately show ?thesis using U(1) D(1) by blast

qed

theorem Union_Difference_Contains_witness:
  "rep_inv \<lparr>length' = 2, keys = [0, 1, 0], set' = [0, 1, 0]\<rparr> \<and>
   rep_inv \<lparr>length' = 3, keys = [0, 0, 1, 0, 2], set' = [1, 2, 4, 0, 0]\<rparr> \<and>
   (\<exists>U D. Union' \<lparr>length' = 2, keys = [0, 1, 0], set' = [0, 1, 0]\<rparr>
              \<lparr>length' = 3, keys = [0, 0, 1, 0, 2], set' = [1, 2, 4, 0, 0]\<rparr> = Inr U \<and>
           Difference \<lparr>length' = 2, keys = [0, 1, 0], set' = [0, 1, 0]\<rparr>
              \<lparr>length' = 3, keys = [0, 0, 1, 0, 2], set' = [1, 2, 4, 0, 0]\<rparr> = Inr D \<and>
           UniverseSize U = 3 \<and>
           Contains U 0 = Inr True \<and> Contains U 1 = Inr True \<and> Contains U 2 = Inr True \<and>
           Contains U 4 = Inr False \<and>
           Contains D 0 = Inr True \<and> Contains D 1 = Inr False)"
proof -
  let ?A = "\<lparr>length' = 2, keys = [0, 1, 0], set' = [0, 1, 0]\<rparr>"
  let ?B = "\<lparr>length' = 3, keys = [0, 0, 1, 0, 2], set' = [1, 2, 4, 0, 0]\<rparr>"
  have a: "rep_inv ?A" by code_simp
  have b: "rep_inv ?B" by code_simp
  from Union_Difference_Contains [OF a b] obtain U D where
    UD: "Union' ?A ?B = Inr U" "Difference ?A ?B = Inr D" "UniverseSize U = UniverseSize ?A"
      "\<And>v. \<exists>a b. Contains ?A v = Inr a \<and> Contains ?B v = Inr b \<and>
                  (v < UniverseSize ?A \<longrightarrow> Contains U v = Inr (a \<or> b)) \<and>
                  (UniverseSize ?A \<le> v \<longrightarrow> Contains U v = Inr False) \<and>
                  Contains D v = Inr (a \<and> \<not> b)" by blast
  have u: "UniverseSize ?A = 3" by (simp add: UniverseSize_def)
  have cA: "Contains ?A 0 = Inr True" "Contains ?A 1 = Inr True" "Contains ?A 2 = Inr False"
    by (simp_all add: Contains_def index_def)
  have cB: "Contains ?B 0 = Inr False" "Contains ?B 1 = Inr True" "Contains ?B 2 = Inr True"
    by (simp_all add: Contains_def index_def)
  have "Contains U 0 = Inr True" using UD(4) [of 0] cA cB u by auto
  moreover have "Contains U 1 = Inr True" using UD(4) [of 1] cA cB u by auto
  moreover have "Contains U 2 = Inr True" using UD(4) [of 2] cA cB u by auto
  moreover have "Contains U 4 = Inr False" using UD(4) [of 4] u by auto
  moreover have "Contains D 0 = Inr True" using UD(4) [of 0] cA cB by auto
  moreover have "Contains D 1 = Inr False" using UD(4) [of 1] cA cB by auto
  ultimately show ?thesis using a b UD(1,2) UD(3) [unfolded u] by blast
qed

subsection \<open>Choosing\<close>

text \<open>
  Claim C9. On a set that satisfies the invariant: \<open>Choose\<close> on the empty set returns
  \<open>0\<close> and no error; on a non-empty set, when the draw yields an index below the
  length, it returns a member and no error; when the draw fails it returns that error;
  and an error is returned only when the draw failed. \<open>Choose\<close> returns no set: the
  source assigns to nothing.
\<close>

theorem Choose_correct:
  assumes inv: "rep_inv s"
  shows "(Empty s \<longrightarrow> Choose rand_Int s = Inr (0, None)) \<and>
         (\<forall>ip. \<not> Empty s \<and> rand_Int (Length s) = Inr ip \<and> 0 \<le> ip \<and> ip < Length s \<longrightarrow>
            (\<exists>c. Choose rand_Int s = Inr (c, None) \<and> Contains s c = Inr True)) \<and>
         (\<forall>err. \<not> Empty s \<and> rand_Int (Length s) = Inl err \<longrightarrow>
            Choose rand_Int s = Inr (0, Some err)) \<and>
         (\<forall>c err. Choose rand_Int s = Inr (c, Some err) \<longrightarrow> rand_Int (Length s) = Inl err)"
proof -
  have n0: "0 \<le> length' s" and nU: "length' s \<le> int (length (keys s))"
    and len: "length (set' s) = length (keys s)"
    using inv by (auto simp: rep_inv_def)
  have drawn: "\<exists>c. Choose rand_Int s = Inr (c, None) \<and> Contains s c = Inr True"
    if "\<not> Empty s" "rand_Int (Length s) = Inr ip" "0 \<le> ip" "ip < Length s" for ip
  proof -
    have ip: "nat ip < nat (length' s)" using that by (simp add: Length_def)
    have "index (set' s) ip = Inr (set' s ! nat ip)"
      using that nU len by (simp add: index_def Length_def)
    then have "Choose rand_Int s = Inr (set' s ! nat ip, None)"
      using that n0 by (simp add: Choose_def Length_def Empty_def)
    moreover have "set' s ! nat ip \<in> set (members s)"
      using ip inv mem_members_iff by blast
    ultimately show ?thesis using inv by (simp add: Contains_members)
  qed
  have "Choose rand_Int s = Inr (c, Some err) \<longrightarrow> rand_Int (Length s) = Inl err" for c err
    by (auto simp: Choose_def Length_def split: if_splits sum.splits)
  moreover have "\<not> Empty s \<and> rand_Int (Length s) = Inl err \<longrightarrow>
            Choose rand_Int s = Inr (0, Some err)" for err
    using n0 by (auto simp: Choose_def Length_def Empty_def)
  moreover have "Empty s \<longrightarrow> Choose rand_Int s = Inr (0, None)"
    by (simp add: Choose_def)
  ultimately show ?thesis using drawn by blast
qed

theorem Choose_correct_witness:
  "rep_inv \<lparr>length' = 3, keys = [0, 0, 1, 0, 2], set' = [1, 2, 4, 0, 0]\<rparr> \<and>
   \<not> Empty \<lparr>length' = 3, keys = [0, 0, 1, 0, 2], set' = [1, 2, 4, 0, 0]\<rparr> \<and>
   (\<exists>c. Choose (\<lambda>max. Inr 1 :: unit + int)
           \<lparr>length' = 3, keys = [0, 0, 1, 0, 2], set' = [1, 2, 4, 0, 0]\<rparr> = Inr (c, None) \<and>
        Contains \<lparr>length' = 3, keys = [0, 0, 1, 0, 2], set' = [1, 2, 4, 0, 0]\<rparr> c = Inr True) \<and>
   Choose (\<lambda>max. Inl () :: unit + int)
           \<lparr>length' = 3, keys = [0, 0, 1, 0, 2], set' = [1, 2, 4, 0, 0]\<rparr> = Inr (0, Some ()) \<and>
   rep_inv \<lparr>length' = 0, keys = [0, 0], set' = [0, 0]\<rparr> \<and>
   Empty \<lparr>length' = 0, keys = [0, 0], set' = [0, 0]\<rparr> \<and>
   Choose (\<lambda>max. Inr 1 :: unit + int) \<lparr>length' = 0, keys = [0, 0], set' = [0, 0]\<rparr> = Inr (0, None)"
proof -
  let ?s = "\<lparr>length' = 3, keys = [0, 0, 1, 0, 2], set' = [1, 2, 4, 0, 0]\<rparr>"
  let ?e = "\<lparr>length' = 0, keys = [0, 0], set' = [0, 0]\<rparr>"
  have i: "rep_inv ?s" by code_simp
  have j: "rep_inv ?e" by code_simp
  have ne: "\<not> Empty ?s" and l: "Length ?s = 3" and em: "Empty ?e"
    by (simp_all add: Empty_def Length_def)
  have l1: "(0::int) \<le> 1 \<and> 1 < Length ?s" using l by simp
  have "\<exists>c. Choose (\<lambda>max. Inr 1 :: unit + int) ?s = Inr (c, None) \<and> Contains ?s c = Inr True"
    using Choose_correct [OF i, of "\<lambda>max. Inr 1 :: unit + int"] ne l1 by blast
  moreover have "Choose (\<lambda>max. Inl () :: unit + int) ?s = Inr (0, Some ())"
    using Choose_correct [OF i, of "\<lambda>max. Inl () :: unit + int"] ne by blast
  moreover have "Choose (\<lambda>max. Inr 1 :: unit + int) ?e = Inr (0, None)"
    using Choose_correct [OF j, of "\<lambda>max. Inr 1 :: unit + int"] em by blast
  ultimately show ?thesis using i j ne em by blast
qed

subsection \<open>Construction\<close>

text \<open>
  Claim C10. \<open>New\<close> with a negative universe size panics in \<open>make\<close>, in both variants,
  whatever the values.
\<close>

theorem New_negative_universe_panics:
  assumes "universeSize < 0"
  shows "New universeSize values = Inl MakeSliceLenOutOfRange \<and>
         New2 universeSize values = Inl MakeSliceLenOutOfRange"
  using assms by (simp add: New_def New2_def makeslice_def)

theorem New_negative_universe_panics_witness:
  "(- 1 :: int) < 0 \<and> New (- 1) [1, 2] = Inl MakeSliceLenOutOfRange \<and>
     New2 (- 1) [1, 2] = Inl MakeSliceLenOutOfRange"
  using New_negative_universe_panics [of "- 1" "[1, 2]"] by simp

section \<open>Properties of the store\<close>

subsection \<open>Loading and storing\<close>

lemma structs_store: "length (structs (store h p s)) = length (structs h)"
  by (simp add: store_def)

lemma arrays_store: "length (arrays (store h p s)) = length (arrays h)"
  by (simp add: store_def)

lemma keys_field_store: "keys_field (structs (store h p s) ! q) = keys_field (structs h ! q)"
  by (cases "p < length (structs h)") (simp_all add: store_def nth_list_update list_update_beyond)

lemma set_field_store: "set_field (structs (store h p s) ! q) = set_field (structs h ! q)"
  by (cases "p < length (structs h)") (simp_all add: store_def nth_list_update list_update_beyond)

lemma heap_inv_fields:
  assumes "heap_inv h" and "p < length (structs h)"
  shows "keys_field (structs h ! p) < length (arrays h)"
    and "set_field (structs h ! p) < length (arrays h)"
    and "keys_field (structs h ! p) \<noteq> set_field (structs h ! p)"
    and "rep_inv (load h p)"
  using assms by (simp_all add: heap_inv_def)

lemma heap_inv_disjoint:
  assumes "heap_inv h" and "p < length (structs h)" and "q < length (structs h)" and "p \<noteq> q"
  shows "keys_field (structs h ! p) \<noteq> keys_field (structs h ! q)"
    and "keys_field (structs h ! p) \<noteq> set_field (structs h ! q)"
    and "set_field (structs h ! p) \<noteq> set_field (structs h ! q)"
    and "set_field (structs h ! p) \<noteq> keys_field (structs h ! q)"
proof -
  have pq: "keys_field (structs h ! p) \<noteq> keys_field (structs h ! q) \<and>
           keys_field (structs h ! p) \<noteq> set_field (structs h ! q) \<and>
           set_field (structs h ! p) \<noteq> set_field (structs h ! q)"
    using assms unfolding heap_inv_def by simp
  have qp: "keys_field (structs h ! q) \<noteq> set_field (structs h ! p)"
    using assms unfolding heap_inv_def by (metis atLeastLessThan_iff zero_le)
  show "keys_field (structs h ! p) \<noteq> keys_field (structs h ! q)"
    and "keys_field (structs h ! p) \<noteq> set_field (structs h ! q)"
    and "set_field (structs h ! p) \<noteq> set_field (structs h ! q)"
    and "set_field (structs h ! p) \<noteq> keys_field (structs h ! q)"
    using pq qp by auto
qed

lemma load_store_same:
  assumes "heap_inv h" and "p < length (structs h)"
  shows "load (store h p s) p = s"
  using heap_inv_fields [OF assms] assms(2)
  by (simp add: load_def store_def)

lemma load_store_other:
  assumes "heap_inv h" and "p < length (structs h)" and "q < length (structs h)" and "p \<noteq> q"
  shows "load (store h p s) q = load h q"
  using heap_inv_disjoint [OF assms] assms(2,3,4)
  by (simp add: load_def store_def)


lemma heap_inv_store:
  assumes inv: "heap_inv h" and p: "p < length (structs h)" and s: "rep_inv s"
  shows "heap_inv (store h p s)"
  unfolding heap_inv_def
proof (intro ballI conjI impI)
  fix q assume "q \<in> {0 ..< length (structs (store h p s))}"
  then have q: "q < length (structs h)" by (simp add: structs_store)
  show "keys_field (structs (store h p s) ! q) < length (arrays (store h p s))"
    and "set_field (structs (store h p s) ! q) < length (arrays (store h p s))"
    and "keys_field (structs (store h p s) ! q) \<noteq> set_field (structs (store h p s) ! q)"
    using heap_inv_fields [OF inv q]
    by (simp_all add: keys_field_store set_field_store arrays_store)
  show "rep_inv (load (store h p s) q)"
  proof (cases "q = p")
    case True
    with s show ?thesis by (simp add: load_store_same [OF inv p])
  next
    case False
    then have "p \<noteq> q" by simp
    then show ?thesis
      using heap_inv_fields(4) [OF inv q] by (simp add: load_store_other [OF inv p q])
  qed
  fix r assume "r \<in> {0 ..< length (structs (store h p s))}" and qr: "q \<noteq> r"
  then have r: "r < length (structs h)" by (simp add: structs_store)
  show "keys_field (structs (store h p s) ! q) \<noteq> keys_field (structs (store h p s) ! r)"
    and "keys_field (structs (store h p s) ! q) \<noteq> set_field (structs (store h p s) ! r)"
    and "set_field (structs (store h p s) ! q) \<noteq> set_field (structs (store h p s) ! r)"
    using heap_inv_disjoint [OF inv q r qr]
    by (simp_all add: keys_field_store set_field_store)
qed

lemma store_array_length:
  assumes inv: "heap_inv h" and p: "p < length (structs h)" and s: "rep_inv s"
    and len: "length (keys s) = length (keys (load h p))"
  shows "length (arrays (store h p s) ! b) = length (arrays h ! b)"
proof -
  have "length (set' s) = length (keys s)" using s by (simp add: rep_inv_def)
  moreover have "length (set' (load h p)) = length (keys (load h p))"
    using heap_inv_fields(4) [OF inv p] by (simp add: rep_inv_def)
  ultimately have "length (set' s) = length (arrays h ! set_field (structs h ! p))"
    and "length (keys s) = length (arrays h ! keys_field (structs h ! p))"
    using len by (simp_all add: load_def)
  then show ?thesis
    using heap_inv_fields(1,2) [OF inv p]
    by (simp add: store_def nth_list_update)
qed


lemma store_store:
  assumes inv: "heap_inv h" and p: "p < length (structs h)"
  shows "store (store h p s1) p s2 = store h p s2"
proof -
  have "keys_field (structs h ! p) \<noteq> set_field (structs h ! p)"
    using heap_inv_fields(3) [OF inv p] .
  then show ?thesis
    using p by (simp add: store_def list_update_swap [of "keys_field (structs h ! p)"])
qed

lemma store_frame_arrays:
  "b \<noteq> keys_field (structs h ! p) \<Longrightarrow> b \<noteq> set_field (structs h ! p) \<Longrightarrow>
     arrays (store h p s) ! b = arrays h ! b"
  by (simp add: store_def)

subsection \<open>The loops on the store\<close>

text \<open>
  Whatever array the values are read from, the receiver's own included, the loops keep
  the invariant of the store and do not panic.
\<close>

lemma Add_range_inv:
  "heap_inv h \<Longrightarrow> p < length (structs h) \<Longrightarrow> \<forall>i \<in> set is. i < length (arrays h ! a) \<Longrightarrow>
     \<exists>h'. Add_range h p a is = Inr h' \<and> heap_inv h' \<and>
       length (structs h') = length (structs h) \<and> length (arrays h') = length (arrays h)"
proof (induction "is" arbitrary: h)
  case Nil
  then show ?case by simp
next
  case (Cons i "is")
  let ?v = "arrays h ! a ! i"
  have rd: "index (arrays h ! a) (int i) = Inr ?v" using Cons.prems(3) by (simp add: index_def)
  have inv: "rep_inv (load h p)" using heap_inv_fields(4) [OF Cons.prems(1,2)] .
  from Add_body_correct [OF inv, of ?v] obtain s1 where
    s1: "Add_body (load h p) ?v = Inr s1" "rep_inv s1"
        "length (keys s1) = length (keys (load h p))" by blast
  let ?h1 = "store h p s1"
  have h1: "heap_inv ?h1" using Cons.prems(1,2) s1(2) by (rule heap_inv_store)
  have p1: "p < length (structs ?h1)" using Cons.prems(2) by (simp add: structs_store)
  have r1: "\<forall>i \<in> set is. i < length (arrays ?h1 ! a)"
    using Cons.prems(3) by (simp add: store_array_length [OF Cons.prems(1,2) s1(2,3)])
  from Cons.IH [OF h1 p1 r1] rd s1(1) show ?case
    by (simp add: structs_store arrays_store)
qed

lemma Remove_range_inv:
  "heap_inv h \<Longrightarrow> p < length (structs h) \<Longrightarrow> \<forall>i \<in> set is. i < length (arrays h ! a) \<Longrightarrow>
     \<exists>h'. Remove_range h p a is = Inr h' \<and> heap_inv h' \<and>
       length (structs h') = length (structs h) \<and> length (arrays h') = length (arrays h)"
proof (induction "is" arbitrary: h)
  case Nil
  then show ?case by simp
next
  case (Cons i "is")
  let ?v = "arrays h ! a ! i"
  have rd: "index (arrays h ! a) (int i) = Inr ?v" using Cons.prems(3) by (simp add: index_def)
  show ?case
  proof (cases "length' (load h p) = 0")
    case True
    with rd Cons.prems(1) show ?thesis by simp
  next
    case False
    have inv: "rep_inv (load h p)" using heap_inv_fields(4) [OF Cons.prems(1,2)] .
    from Remove_body_correct [OF inv, of ?v] obtain s1 where
      s1: "Remove_body (load h p) ?v = Inr s1" "rep_inv s1"
          "length (keys s1) = length (keys (load h p))" by blast
    let ?h1 = "store h p s1"
    have h1: "heap_inv ?h1" using Cons.prems(1,2) s1(2) by (rule heap_inv_store)
    have p1: "p < length (structs ?h1)" using Cons.prems(2) by (simp add: structs_store)
    have r1: "\<forall>i \<in> set is. i < length (arrays ?h1 ! a)"
      using Cons.prems(3) by (simp add: store_array_length [OF Cons.prems(1,2) s1(2,3)])
    from Cons.IH [OF h1 p1 r1] rd s1(1) False show ?thesis
      by (simp add: structs_store arrays_store)
  qed
qed

text \<open>
  When the values are read from an array that is not one of the receiver's, the loops
  on the store compute what the loops on values compute.
\<close>

lemma store_load: "store h p (load h p) = h"
  by (simp add: store_def load_def)

lemma Add_range_pure:
  "heap_inv h \<Longrightarrow> p < length (structs h) \<Longrightarrow>
   a \<noteq> keys_field (structs h ! p) \<Longrightarrow> a \<noteq> set_field (structs h ! p) \<Longrightarrow>
   \<forall>i \<in> set is. i < length (arrays h ! a) \<Longrightarrow>
     \<exists>s'. Add (load h p) (map (\<lambda>i. arrays h ! a ! i) is) = Inr s' \<and>
          Add_range h p a is = Inr (store h p s')"
proof (induction "is" arbitrary: h)
  case Nil
  then show ?case by (simp add: store_load)
next
  case (Cons i "is")
  let ?v = "arrays h ! a ! i"
  have rd: "index (arrays h ! a) (int i) = Inr ?v" using Cons.prems(5) by (simp add: index_def)
  have inv: "rep_inv (load h p)" using heap_inv_fields(4) [OF Cons.prems(1,2)] .
  from Add_body_correct [OF inv, of ?v] obtain s1 where
    s1: "Add_body (load h p) ?v = Inr s1" "rep_inv s1"
        "length (keys s1) = length (keys (load h p))" by blast
  let ?h1 = "store h p s1"
  have h1: "heap_inv ?h1" using Cons.prems(1,2) s1(2) by (rule heap_inv_store)
  have p1: "p < length (structs ?h1)" using Cons.prems(2) by (simp add: structs_store)
  have a1: "a \<noteq> keys_field (structs ?h1 ! p)" "a \<noteq> set_field (structs ?h1 ! p)"
    using Cons.prems(3,4) by (simp_all add: keys_field_store set_field_store)
  have same: "arrays ?h1 ! a = arrays h ! a"
    using Cons.prems(3,4) by (rule store_frame_arrays)
  have r1: "\<forall>i \<in> set is. i < length (arrays ?h1 ! a)"
    using Cons.prems(5) by (simp add: same)
  from Cons.IH [OF h1 p1 a1 r1] obtain s' where
    s': "Add (load ?h1 p) (map (\<lambda>i. arrays ?h1 ! a ! i) is) = Inr s'"
        "Add_range ?h1 p a is = Inr (store ?h1 p s')" by blast
  have l1: "load ?h1 p = s1" using Cons.prems(1,2) by (rule load_store_same)
  have pure: "Add (load h p) (map (\<lambda>i. arrays h ! a ! i) (i # is)) = Inr s'"
    using s'(1) s1(1) by (simp add: l1 same)
  have "Add_range h p a (i # is) = Inr (store h p s')"
    using rd s1(1) s'(2) by (simp add: store_store [OF Cons.prems(1,2)])
  with pure show ?case by simp
qed

lemma Remove_range_pure:
  "heap_inv h \<Longrightarrow> p < length (structs h) \<Longrightarrow>
   a \<noteq> keys_field (structs h ! p) \<Longrightarrow> a \<noteq> set_field (structs h ! p) \<Longrightarrow>
   \<forall>i \<in> set is. i < length (arrays h ! a) \<Longrightarrow>
     \<exists>s'. Remove (load h p) (map (\<lambda>i. arrays h ! a ! i) is) = Inr s' \<and>
          Remove_range h p a is = Inr (store h p s')"
proof (induction "is" arbitrary: h)
  case Nil
  then show ?case by (simp add: store_load)
next
  case (Cons i "is")
  let ?v = "arrays h ! a ! i"
  have rd: "index (arrays h ! a) (int i) = Inr ?v" using Cons.prems(5) by (simp add: index_def)
  show ?case
  proof (cases "length' (load h p) = 0")
    case True
    with rd show ?thesis by (simp add: store_load)
  next
    case False
    have inv: "rep_inv (load h p)" using heap_inv_fields(4) [OF Cons.prems(1,2)] .
    from Remove_body_correct [OF inv, of ?v] obtain s1 where
      s1: "Remove_body (load h p) ?v = Inr s1" "rep_inv s1"
          "length (keys s1) = length (keys (load h p))" by blast
    let ?h1 = "store h p s1"
    have h1: "heap_inv ?h1" using Cons.prems(1,2) s1(2) by (rule heap_inv_store)
    have p1: "p < length (structs ?h1)" using Cons.prems(2) by (simp add: structs_store)
    have a1: "a \<noteq> keys_field (structs ?h1 ! p)" "a \<noteq> set_field (structs ?h1 ! p)"
      using Cons.prems(3,4) by (simp_all add: keys_field_store set_field_store)
    have same: "arrays ?h1 ! a = arrays h ! a"
      using Cons.prems(3,4) by (rule store_frame_arrays)
    have r1: "\<forall>i \<in> set is. i < length (arrays ?h1 ! a)"
      using Cons.prems(5) by (simp add: same)
    from Cons.IH [OF h1 p1 a1 r1] obtain s' where
      s': "Remove (load ?h1 p) (map (\<lambda>i. arrays ?h1 ! a ! i) is) = Inr s'"
          "Remove_range ?h1 p a is = Inr (store ?h1 p s')" by blast
    have l1: "load ?h1 p = s1" using Cons.prems(1,2) by (rule load_store_same)
    have pure: "Remove (load h p) (map (\<lambda>i. arrays h ! a ! i) (i # is)) = Inr s'"
      using s'(1) s1(1) False by (simp add: l1 same)
    have "Remove_range h p a (i # is) = Inr (store h p s')"
      using rd s1(1) s'(2) False by (simp add: store_store [OF Cons.prems(1,2)])
    with pure show ?thesis by simp
  qed
qed

lemma map_nth_upt: "n \<le> length xs \<Longrightarrow> map (\<lambda>i. xs ! i) [0 ..< n] = take n xs"
  by (rule nth_equalityI) simp_all


subsection \<open>Allocation, construction and copy on the store\<close>

lemma load_append_arrays:
  assumes "heap_inv h" and "p < length (structs h)"
  shows "load (h\<lparr>arrays := arrays h @ new\<rparr>) p = load h p"
  using heap_inv_fields(1,2) [OF assms] by (simp add: load_def nth_append)

lemma heap_inv_append_arrays:
  assumes inv: "heap_inv h"
  shows "heap_inv (h\<lparr>arrays := arrays h @ new\<rparr>)"
  unfolding heap_inv_def
proof (intro ballI conjI impI)
  let ?h = "h\<lparr>arrays := arrays h @ new\<rparr>"
  fix q assume "q \<in> {0 ..< length (structs ?h)}"
  then have q: "q < length (structs h)" by simp
  show "keys_field (structs ?h ! q) < length (arrays ?h)"
    and "set_field (structs ?h ! q) < length (arrays ?h)"
    and "keys_field (structs ?h ! q) \<noteq> set_field (structs ?h ! q)"
    using heap_inv_fields [OF inv q] by simp_all
  show "rep_inv (load ?h q)"
    using heap_inv_fields(4) [OF inv q] by (simp add: load_append_arrays [OF inv q])
  fix r assume "r \<in> {0 ..< length (structs ?h)}" and qr: "q \<noteq> r"
  then have r: "r < length (structs h)" by simp
  show "keys_field (structs ?h ! q) \<noteq> keys_field (structs ?h ! r)"
    and "keys_field (structs ?h ! q) \<noteq> set_field (structs ?h ! r)"
    and "set_field (structs ?h ! q) \<noteq> set_field (structs ?h ! r)"
    using heap_inv_disjoint [OF inv q r qr] by simp_all
qed

lemma heap_inv_new_struct:
  fixes n :: nat
  assumes inv: "heap_inv h"
  defines "k \<equiv> length (arrays h)"
  defines "h3 \<equiv> \<lparr>arrays = arrays h @ [replicate n 0, replicate n 0],
                   structs = structs h @ [\<lparr>length_field = 0, keys_field = k, set_field = Suc k\<rparr>]\<rparr>"
  shows "heap_inv h3"
  unfolding heap_inv_def
proof (intro ballI conjI impI)
  have old: "structs h3 ! q = structs h ! q" if "q < length (structs h)" for q
    using that by (simp add: h3_def nth_append)
  have new: "structs h3 ! length (structs h) = \<lparr>length_field = 0, keys_field = k, set_field = Suc k\<rparr>"
    by (simp add: h3_def)
  have la: "length (arrays h3) = Suc (Suc k)" by (simp add: h3_def k_def)
  have oldf: "keys_field (structs h ! q) < k \<and> set_field (structs h ! q) < k"
    if "q < length (structs h)" for q
    using heap_inv_fields(1,2) [OF inv that] by (simp add: k_def)
  have lold: "load h3 q = load h q" if "q < length (structs h)" for q
    using oldf [OF that] that by (simp add: load_def h3_def nth_append k_def)
  have lnew: "load h3 (length (structs h)) =
      \<lparr>length' = 0, keys = replicate n 0, set' = replicate n 0\<rparr>"
    by (simp add: load_def h3_def nth_append k_def)
  fix q assume "q \<in> {0 ..< length (structs h3)}"
  then have q: "q < length (structs h) \<or> q = length (structs h)" by (auto simp: h3_def)
  show "keys_field (structs h3 ! q) < length (arrays h3)"
    using q oldf [of q] by (auto simp: old new la)
  show "set_field (structs h3 ! q) < length (arrays h3)"
    using q oldf [of q] by (auto simp: old new la)
  show "keys_field (structs h3 ! q) \<noteq> set_field (structs h3 ! q)"
    using q heap_inv_fields(3) [OF inv, of q] by (auto simp: old new)
  show "rep_inv (load h3 q)"
    using q heap_inv_fields(4) [OF inv, of q] by (auto simp: lold lnew rep_inv_initial)
  fix r assume "r \<in> {0 ..< length (structs h3)}" and qr: "q \<noteq> r"
  then have r: "r < length (structs h) \<or> r = length (structs h)" by (auto simp: h3_def)
  have both: "keys_field (structs h3 ! q) \<noteq> keys_field (structs h3 ! r) \<and>
      keys_field (structs h3 ! q) \<noteq> set_field (structs h3 ! r) \<and>
      set_field (structs h3 ! q) \<noteq> set_field (structs h3 ! r)"
  proof (cases "q < length (structs h)")
    case qo: True
    show ?thesis
    proof (cases "r < length (structs h)")
      case True
      with qo heap_inv_disjoint [OF inv qo True qr] show ?thesis by (simp add: old)
    next
      case False
      with r have "r = length (structs h)" by simp
      with qo oldf [OF qo] show ?thesis by (simp add: old new)
    qed
  next
    case False
    with q have qn: "q = length (structs h)" by simp
    with qr r have ro: "r < length (structs h)" by auto
    with qn oldf [OF ro] show ?thesis by (simp add: old new)
  qed
  then show "keys_field (structs h3 ! q) \<noteq> keys_field (structs h3 ! r)"
    and "keys_field (structs h3 ! q) \<noteq> set_field (structs h3 ! r)"
    and "set_field (structs h3 ! q) \<noteq> set_field (structs h3 ! r)" by simp_all
qed


lemma New_h_correct:
  assumes inv: "heap_inv h" and U: "0 \<le> universeSize"
    and a: "a < length (arrays h)" and n: "n \<le> length (arrays h ! a)"
  shows "\<exists>s' h'. New universeSize (take n (arrays h ! a)) = Inr s' \<and>
           New_h h universeSize (a, n) = Inr (length (structs h), h') \<and>
           heap_inv h' \<and> load h' (length (structs h)) = s' \<and>
           length (structs h') = Suc (length (structs h)) \<and>
           take (length (structs h)) (structs h') = structs h \<and>
           take (length (arrays h)) (arrays h') = arrays h \<and>
           length (arrays h) \<le> keys_field (structs h' ! length (structs h)) \<and>
           length (arrays h) \<le> set_field (structs h' ! length (structs h))"
proof -
  let ?z = "replicate (nat universeSize) (0::int)"
  let ?k = "length (arrays h)"
  let ?p = "length (structs h)"
  let ?h3 = "\<lparr>arrays = arrays h @ [?z, ?z],
              structs = structs h @ [\<lparr>length_field = 0, keys_field = ?k, set_field = Suc ?k\<rparr>]\<rparr>"
  have h3: "heap_inv ?h3" using inv by (rule heap_inv_new_struct)
  have p3: "?p < length (structs ?h3)" by simp
  have st: "structs ?h3 ! ?p = \<lparr>length_field = 0, keys_field = ?k, set_field = Suc ?k\<rparr>"
    by simp
  have arr: "arrays ?h3 ! a = arrays h ! a" using a by (simp add: nth_append)
  have na: "a \<noteq> keys_field (structs ?h3 ! ?p)" "a \<noteq> set_field (structs ?h3 ! ?p)"
    using a by (simp_all only: st) simp_all
  have rng: "\<forall>i \<in> set [0 ..< n]. i < length (arrays ?h3 ! a)"
    using n by (simp only: arr) simp
  from Add_range_pure [OF h3 p3 na rng] obtain s' where
    s': "Add (load ?h3 ?p) (map (\<lambda>i. arrays ?h3 ! a ! i) [0 ..< n]) = Inr s'"
        "Add_range ?h3 ?p a [0 ..< n] = Inr (store ?h3 ?p s')" by blast
  have l3: "load ?h3 ?p = \<lparr>length' = 0, keys = ?z, set' = ?z\<rparr>"
    by (simp add: load_def nth_append)
  have vals: "map (\<lambda>i. arrays ?h3 ! a ! i) [0 ..< n] = take n (arrays h ! a)"
    using n by (simp only: arr map_nth_upt)
  have pure: "New universeSize (take n (arrays h ! a)) = Inr s'"
    using s'(1) U by (simp only: l3 vals) (simp add: New_def makeslice_def)
  have rs: "rep_inv s'"
    using Add_correct [OF rep_inv_initial, of "nat universeSize" "take n (arrays h ! a)"] s'(1)
    by (simp only: l3 vals) auto
  let ?h' = "store ?h3 ?p s'"
  have ah: "Add_h ?h3 ?p (a, n) = Inr ?h'"
    using s'(2) a by (simp add: Add_h_def)
  have eq3: "h\<lparr>arrays := arrays h @ [?z, ?z],
      structs := structs h @ [\<lparr>length_field = 0, keys_field = ?k, set_field = Suc ?k\<rparr>]\<rparr> = ?h3"
    by simp
  have newh: "New_h h universeSize (a, n) = Inr (?p, ?h')"
    using U ah by (simp add: New_h_def makeslice_def alloc_array_def alloc_struct_def eq3)
  have inv': "heap_inv ?h'" using h3 p3 rs by (rule heap_inv_store)
  have ld: "load ?h' ?p = s'" using h3 p3 by (rule load_store_same)
  have fs: "take ?p (structs ?h') = structs h" by (simp add: store_def)
  have fa: "take ?k (arrays ?h') = arrays h" by (simp add: store_def)
  have kf: "keys_field (structs ?h' ! ?p) = ?k" "set_field (structs ?h' ! ?p) = Suc ?k"
    by (simp_all only: keys_field_store set_field_store st) simp_all
  have ls: "length (structs ?h') = Suc ?p" by (simp add: structs_store)
  show ?thesis
    using pure newh inv' ld ls fs fa kf by (intro exI [of _ s'] exI [of _ ?h']) simp
qed

lemma frame_load:
  assumes inv: "heap_inv h" and q: "q < length (structs h)"
    and fs: "take (length (structs h)) (structs h') = structs h"
    and fa: "take (length (arrays h)) (arrays h') = arrays h"
  shows "structs h' ! q = structs h ! q" and "load h' q = load h q"
proof -
  show sq: "structs h' ! q = structs h ! q"
    using q nth_take [of q "length (structs h)" "structs h'"] by (simp add: fs)
  have "arrays h' ! b = arrays h ! b" if "b < length (arrays h)" for b
    using that nth_take [of b "length (arrays h)" "arrays h'"] by (simp add: fa)
  then show "load h' q = load h q"
    using heap_inv_fields(1,2) [OF inv q] by (simp add: load_def sq)
qed

lemma set_slice_members:
  assumes inv: "heap_inv h" and q: "q < length (structs h)"
  shows "set_slice h q = Inr (set_field (structs h ! q), nat (length' (load h q)))"
    and "nat (length' (load h q)) \<le> length (arrays h ! set_field (structs h ! q))"
    and "take (nat (length' (load h q))) (arrays h ! set_field (structs h ! q)) = members (load h q)"
proof -
  have r: "rep_inv (load h q)" using heap_inv_fields(4) [OF inv q] .
  then have b: "0 \<le> length' (load h q)" "length' (load h q) \<le> int (length (set' (load h q)))"
    by (simp_all add: rep_inv_def)
  then show "set_slice h q = Inr (set_field (structs h ! q), nat (length' (load h q)))"
    using q by (simp add: set_slice_def load_def)
  show "nat (length' (load h q)) \<le> length (arrays h ! set_field (structs h ! q))"
    using b by (simp add: load_def)
  show "take (nat (length' (load h q))) (arrays h ! set_field (structs h ! q)) = members (load h q)"
    by (simp add: members_def load_def)
qed

lemma Copy_h_correct:
  assumes inv: "heap_inv h" and p: "p < length (structs h)"
  shows "\<exists>h'. Copy_h h p = Inr (length (structs h), h') \<and>
           Copy (load h p) = Inr (load h' (length (structs h))) \<and> heap_inv h' \<and>
           length (structs h') = Suc (length (structs h)) \<and>
           take (length (structs h)) (structs h') = structs h \<and>
           take (length (arrays h)) (arrays h') = arrays h \<and>
           length (arrays h) \<le> keys_field (structs h' ! length (structs h)) \<and>
           length (arrays h) \<le> set_field (structs h' ! length (structs h))"
proof -
  note sl = set_slice_members [OF inv p]
  have a: "set_field (structs h ! p) < length (arrays h)"
    using heap_inv_fields(2) [OF inv p] .
  have U: "0 \<le> int (length (arrays h ! keys_field (structs h ! p)))" by simp
  from New_h_correct [OF inv U a sl(2)] obtain s' h' where
    n: "New (int (length (arrays h ! keys_field (structs h ! p)))) (members (load h p)) = Inr s'"
       "New_h h (int (length (arrays h ! keys_field (structs h ! p))))
          (set_field (structs h ! p), nat (length' (load h p))) = Inr (length (structs h), h')"
       "heap_inv h'" "load h' (length (structs h)) = s'"
       "length (structs h') = Suc (length (structs h))"
       "take (length (structs h)) (structs h') = structs h"
       "take (length (arrays h)) (arrays h') = arrays h"
       "length (arrays h) \<le> keys_field (structs h' ! length (structs h))"
       "length (arrays h) \<le> set_field (structs h' ! length (structs h))"
    unfolding sl(3) by blast
  have "Copy_h h p = Inr (length (structs h), h')"
    using n(2) by (simp add: Copy_h_def sl(1))
  moreover have "Copy (load h p) = Inr (load h' (length (structs h)))"
    using n(1,4) heap_inv_fields(4) [OF inv p]
    by (simp add: Copy_def slice_to_members) (simp add: load_def)
  ultimately show ?thesis using n(3,5,6,7,8,9) by blast
qed


subsection \<open>Union and difference on the store\<close>

lemma Union_method_h_inv:
  assumes inv: "heap_inv h" and p: "p < length (structs h)" and q: "q < length (structs h)"
  shows "\<exists>h'. Union_method_h h p q = Inr h' \<and> heap_inv h' \<and>
           length (structs h') = length (structs h)"
proof -
  note sl = set_slice_members [OF inv q]
  have "\<forall>i \<in> set [0 ..< nat (length' (load h q))]. i < length (arrays h ! set_field (structs h ! q))"
    using sl(2) by simp
  from Add_range_inv [OF inv p this] show ?thesis
    using p heap_inv_fields(2) [OF inv q] by (auto simp: Union_method_h_def sl(1) Add_h_def)
qed

lemma Difference_method_h_inv:
  assumes inv: "heap_inv h" and p: "p < length (structs h)" and q: "q < length (structs h)"
  shows "\<exists>h'. Difference_method_h h p q = Inr h' \<and> heap_inv h' \<and>
           length (structs h') = length (structs h)"
proof -
  note sl = set_slice_members [OF inv q]
  have "\<forall>i \<in> set [0 ..< nat (length' (load h q))]. i < length (arrays h ! set_field (structs h ! q))"
    using sl(2) by simp
  from Remove_range_inv [OF inv p this] show ?thesis
    using p heap_inv_fields(2) [OF inv q] by (auto simp: Difference_method_h_def sl(1) Remove_h_def)
qed

lemma Union_method_h_pure:
  assumes inv: "heap_inv h" and p: "p < length (structs h)" and q: "q < length (structs h)"
    and pq: "p \<noteq> q"
  shows "\<exists>s'. Union_method (load h p) (load h q) = Inr s' \<and>
           Union_method_h h p q = Inr (store h p s')"
proof -
  note sl = set_slice_members [OF inv q]
  let ?a = "set_field (structs h ! q)"
  let ?n = "nat (length' (load h q))"
  have na: "?a \<noteq> keys_field (structs h ! p)" "?a \<noteq> set_field (structs h ! p)"
    using heap_inv_disjoint [OF inv p q pq] by auto
  have rng: "\<forall>i \<in> set [0 ..< ?n]. i < length (arrays h ! ?a)" using sl(2) by simp
  from Add_range_pure [OF inv p na rng] obtain s' where
    s': "Add (load h p) (map (\<lambda>i. arrays h ! ?a ! i) [0 ..< ?n]) = Inr s'"
        "Add_range h p ?a [0 ..< ?n] = Inr (store h p s')" by blast
  have "Union_method (load h p) (load h q) = Inr s'"
    using s'(1) heap_inv_fields(4) [OF inv q]
    by (simp add: Union_method_def slice_to_members map_nth_upt [OF sl(2)] sl(3))
  moreover have "Union_method_h h p q = Inr (store h p s')"
    using s'(2) p heap_inv_fields(2) [OF inv q] by (simp add: Union_method_h_def sl(1) Add_h_def)
  ultimately show ?thesis by blast
qed

lemma Difference_method_h_pure:
  assumes inv: "heap_inv h" and p: "p < length (structs h)" and q: "q < length (structs h)"
    and pq: "p \<noteq> q"
  shows "\<exists>s'. Difference_method (load h p) (load h q) = Inr s' \<and>
           Difference_method_h h p q = Inr (store h p s')"
proof -
  note sl = set_slice_members [OF inv q]
  let ?a = "set_field (structs h ! q)"
  let ?n = "nat (length' (load h q))"
  have na: "?a \<noteq> keys_field (structs h ! p)" "?a \<noteq> set_field (structs h ! p)"
    using heap_inv_disjoint [OF inv p q pq] by auto
  have rng: "\<forall>i \<in> set [0 ..< ?n]. i < length (arrays h ! ?a)" using sl(2) by simp
  from Remove_range_pure [OF inv p na rng] obtain s' where
    s': "Remove (load h p) (map (\<lambda>i. arrays h ! ?a ! i) [0 ..< ?n]) = Inr s'"
        "Remove_range h p ?a [0 ..< ?n] = Inr (store h p s')" by blast
  have "Difference_method (load h p) (load h q) = Inr s'"
    using s'(1) heap_inv_fields(4) [OF inv q]
    by (simp add: Difference_method_def slice_to_members map_nth_upt [OF sl(2)] sl(3))
  moreover have "Difference_method_h h p q = Inr (store h p s')"
    using s'(2) p heap_inv_fields(2) [OF inv q]
    by (simp add: Difference_method_h_def sl(1) Remove_h_def)
  ultimately show ?thesis by blast
qed

lemma store_fresh_frame:
  assumes "n \<le> c" and "k \<le> keys_field (structs h1 ! c)" and "k \<le> set_field (structs h1 ! c)"
  shows "take n (structs (store h1 c s)) = take n (structs h1)"
    and "take k (arrays (store h1 c s)) = take k (arrays h1)"
  using assms by (simp_all add: store_def)

lemma Union_h_correct:
  assumes inv: "heap_inv h" and p: "lhs < length (structs h)" and q: "rhs < length (structs h)"
  shows "\<exists>h'. Union_h h lhs rhs = Inr (length (structs h), h') \<and>
           Union' (load h lhs) (load h rhs) = Inr (load h' (length (structs h))) \<and>
           heap_inv h' \<and> length (structs h') = Suc (length (structs h)) \<and>
           take (length (structs h)) (structs h') = structs h \<and>
           take (length (arrays h)) (arrays h') = arrays h"
proof -
  let ?c = "length (structs h)"
  from Copy_h_correct [OF inv p] obtain h1 where
    c: "Copy_h h lhs = Inr (?c, h1)" "Copy (load h lhs) = Inr (load h1 ?c)" "heap_inv h1"
       "length (structs h1) = Suc ?c"
       "take ?c (structs h1) = structs h" "take (length (arrays h)) (arrays h1) = arrays h"
       "length (arrays h) \<le> keys_field (structs h1 ! ?c)"
       "length (arrays h) \<le> set_field (structs h1 ! ?c)" by blast
  have c1: "?c < length (structs h1)" and q1: "rhs < length (structs h1)" and ne: "?c \<noteq> rhs"
    using c(4) q by simp_all
  from Union_method_h_pure [OF c(3) c1 q1 ne] obtain s' where
    s': "Union_method (load h1 ?c) (load h1 rhs) = Inr s'"
        "Union_method_h h1 ?c rhs = Inr (store h1 ?c s')" by blast
  let ?h' = "store h1 ?c s'"
  have lr: "load h1 rhs = load h rhs" using inv q c(5,6) by (rule frame_load)
  have "Union_h h lhs rhs = Inr (?c, ?h')" using c(1) s'(2) by (simp add: Union_h_def)
  moreover have "load ?h' ?c = s'" using c(3) c1 by (rule load_store_same)
  then have "Union' (load h lhs) (load h rhs) = Inr (load ?h' ?c)"
    using c(2) s'(1) by (simp add: Union'_def lr)
  moreover have "rep_inv s'"
    using Union_method_correct [OF heap_inv_fields(4) [OF c(3) c1] heap_inv_fields(4) [OF c(3) q1]] s'(1)
    by auto
  then have "heap_inv ?h'" using c(3) c1 by (intro heap_inv_store)
  moreover have "length (structs ?h') = Suc ?c" using c(4) by (simp add: structs_store)
  moreover have "take ?c (structs ?h') = structs h"
    using store_fresh_frame(1) [OF order_refl c(7,8)] c(5) by simp
  moreover have "take (length (arrays h)) (arrays ?h') = arrays h"
    using store_fresh_frame(2) [OF order_refl c(7,8)] c(6) by simp
  ultimately show ?thesis by blast
qed

lemma Difference_h_correct:
  assumes inv: "heap_inv h" and p: "lhs < length (structs h)" and q: "rhs < length (structs h)"
  shows "\<exists>h'. Difference_h h lhs rhs = Inr (length (structs h), h') \<and>
           Difference (load h lhs) (load h rhs) = Inr (load h' (length (structs h))) \<and>
           heap_inv h' \<and> length (structs h') = Suc (length (structs h)) \<and>
           take (length (structs h)) (structs h') = structs h \<and>
           take (length (arrays h)) (arrays h') = arrays h"
proof -
  let ?c = "length (structs h)"
  from Copy_h_correct [OF inv p] obtain h1 where
    c: "Copy_h h lhs = Inr (?c, h1)" "Copy (load h lhs) = Inr (load h1 ?c)" "heap_inv h1"
       "length (structs h1) = Suc ?c"
       "take ?c (structs h1) = structs h" "take (length (arrays h)) (arrays h1) = arrays h"
       "length (arrays h) \<le> keys_field (structs h1 ! ?c)"
       "length (arrays h) \<le> set_field (structs h1 ! ?c)" by blast
  have c1: "?c < length (structs h1)" and q1: "rhs < length (structs h1)" and ne: "?c \<noteq> rhs"
    using c(4) q by simp_all
  from Difference_method_h_pure [OF c(3) c1 q1 ne] obtain s' where
    s': "Difference_method (load h1 ?c) (load h1 rhs) = Inr s'"
        "Difference_method_h h1 ?c rhs = Inr (store h1 ?c s')" by blast
  let ?h' = "store h1 ?c s'"
  have lr: "load h1 rhs = load h rhs" using inv q c(5,6) by (rule frame_load)
  have "Difference_h h lhs rhs = Inr (?c, ?h')" using c(1) s'(2) by (simp add: Difference_h_def)
  moreover have "load ?h' ?c = s'" using c(3) c1 by (rule load_store_same)
  then have "Difference (load h lhs) (load h rhs) = Inr (load ?h' ?c)"
    using c(2) s'(1) by (simp add: Difference_def lr)
  moreover have "rep_inv s'"
    using Difference_method_correct [OF heap_inv_fields(4) [OF c(3) c1] heap_inv_fields(4) [OF c(3) q1]] s'(1)
    by auto
  then have "heap_inv ?h'" using c(3) c1 by (intro heap_inv_store)
  moreover have "length (structs ?h') = Suc ?c" using c(4) by (simp add: structs_store)
  moreover have "take ?c (structs ?h') = structs h"
    using store_fresh_frame(1) [OF order_refl c(7,8)] c(5) by simp
  moreover have "take (length (arrays h)) (arrays ?h') = arrays h"
    using store_fresh_frame(2) [OF order_refl c(7,8)] c(6) by simp
  ultimately show ?thesis by blast
qed


subsection \<open>Reachable stores\<close>

lemma heap_inv_empty: "heap_inv \<lparr>arrays = [], structs = []\<rparr>"
  by (simp add: heap_inv_def)

lemma New_call_inv:
  assumes inv: "heap_inv h" and U: "0 \<le> universeSize"
  shows "\<exists>h'. New_call h universeSize vs = Inr (length (structs h), h') \<and> heap_inv h' \<and>
           length (structs h') = Suc (length (structs h))"
proof -
  let ?h1 = "h\<lparr>arrays := arrays h @ [vs]\<rparr>"
  have h1: "heap_inv ?h1" using inv by (rule heap_inv_append_arrays)
  have a: "length (arrays h) < length (arrays ?h1)" by simp
  have n: "length vs \<le> length (arrays ?h1 ! length (arrays h))" by simp
  from New_h_correct [OF h1 U a n] show ?thesis
    by (auto simp: New_call_def alloc_array_def)
qed

lemma Add_call_inv:
  assumes inv: "heap_inv h" and p: "p < length (structs h)"
  shows "\<exists>h'. Add_call h p vs = Inr h' \<and> heap_inv h' \<and> length (structs h') = length (structs h)"
proof -
  let ?h1 = "h\<lparr>arrays := arrays h @ [vs]\<rparr>"
  have h1: "heap_inv ?h1" using inv by (rule heap_inv_append_arrays)
  have p1: "p < length (structs ?h1)" using p by simp
  have "\<forall>i \<in> set [0 ..< length vs]. i < length (arrays ?h1 ! length (arrays h))" by simp
  from Add_range_inv [OF h1 p1 this] show ?thesis
    using p by (auto simp: Add_call_def alloc_array_def Add_h_def)
qed

lemma Remove_call_inv:
  assumes inv: "heap_inv h" and p: "p < length (structs h)"
  shows "\<exists>h'. Remove_call h p vs = Inr h' \<and> heap_inv h' \<and> length (structs h') = length (structs h)"
proof -
  let ?h1 = "h\<lparr>arrays := arrays h @ [vs]\<rparr>"
  have h1: "heap_inv ?h1" using inv by (rule heap_inv_append_arrays)
  have p1: "p < length (structs ?h1)" using p by simp
  have "\<forall>i \<in> set [0 ..< length vs]. i < length (arrays ?h1 ! length (arrays h))" by simp
  from Remove_range_inv [OF h1 p1 this] show ?thesis
    using p by (auto simp: Remove_call_def alloc_array_def Remove_h_def)
qed

text \<open>
  A call from outside computes on the store what the function on values computes, and
  leaves every other set as it was.
\<close>

lemma Add_call_pure:
  assumes inv: "heap_inv h" and p: "p < length (structs h)"
  shows "\<exists>s' h'. Add (load h p) vs = Inr s' \<and> Add_call h p vs = Inr h' \<and> load h' p = s' \<and>
           (\<forall>q. q < length (structs h) \<and> q \<noteq> p \<longrightarrow> load h' q = load h q)"
proof -
  let ?h1 = "h\<lparr>arrays := arrays h @ [vs]\<rparr>"
  let ?a = "length (arrays h)"
  have h1: "heap_inv ?h1" using inv by (rule heap_inv_append_arrays)
  have p1: "p < length (structs ?h1)" using p by simp
  have na: "?a \<noteq> keys_field (structs ?h1 ! p)" "?a \<noteq> set_field (structs ?h1 ! p)"
    using heap_inv_fields(1,2) [OF inv p] by simp_all
  have rng: "\<forall>i \<in> set [0 ..< length vs]. i < length (arrays ?h1 ! ?a)" by simp
  from Add_range_pure [OF h1 p1 na rng] obtain s' where
    s': "Add (load ?h1 p) (map (\<lambda>i. arrays ?h1 ! ?a ! i) [0 ..< length vs]) = Inr s'"
        "Add_range ?h1 p ?a [0 ..< length vs] = Inr (store ?h1 p s')" by blast
  have vals: "map (\<lambda>i. arrays ?h1 ! ?a ! i) [0 ..< length vs] = vs"
    by (simp add: map_nth)
  have l1: "load ?h1 q = load h q" if "q < length (structs h)" for q
    using inv that by (rule load_append_arrays)
  have "Add (load h p) vs = Inr s'" using s'(1) by (simp only: vals l1 [OF p])
  moreover have "Add_call h p vs = Inr (store ?h1 p s')"
    using s'(2) p by (simp add: Add_call_def alloc_array_def Add_h_def)
  moreover have "load (store ?h1 p s') p = s'" using h1 p1 by (rule load_store_same)
  moreover have "load (store ?h1 p s') q = load h q" if "q < length (structs h) \<and> q \<noteq> p" for q
  proof -
    from that have q1: "q < length (structs ?h1)" and ne: "p \<noteq> q" by simp_all
    show ?thesis using load_store_other [OF h1 p1 q1 ne] l1 [of q] that by simp
  qed
  ultimately show ?thesis by blast
qed

lemma Remove_call_pure:
  assumes inv: "heap_inv h" and p: "p < length (structs h)"
  shows "\<exists>s' h'. Remove (load h p) vs = Inr s' \<and> Remove_call h p vs = Inr h' \<and>
           load h' p = s' \<and>
           (\<forall>q. q < length (structs h) \<and> q \<noteq> p \<longrightarrow> load h' q = load h q)"
proof -
  let ?h1 = "h\<lparr>arrays := arrays h @ [vs]\<rparr>"
  let ?a = "length (arrays h)"
  have h1: "heap_inv ?h1" using inv by (rule heap_inv_append_arrays)
  have p1: "p < length (structs ?h1)" using p by simp
  have na: "?a \<noteq> keys_field (structs ?h1 ! p)" "?a \<noteq> set_field (structs ?h1 ! p)"
    using heap_inv_fields(1,2) [OF inv p] by simp_all
  have rng: "\<forall>i \<in> set [0 ..< length vs]. i < length (arrays ?h1 ! ?a)" by simp
  from Remove_range_pure [OF h1 p1 na rng] obtain s' where
    s': "Remove (load ?h1 p) (map (\<lambda>i. arrays ?h1 ! ?a ! i) [0 ..< length vs]) = Inr s'"
        "Remove_range ?h1 p ?a [0 ..< length vs] = Inr (store ?h1 p s')" by blast
  have vals: "map (\<lambda>i. arrays ?h1 ! ?a ! i) [0 ..< length vs] = vs"
    by (simp add: map_nth)
  have l1: "load ?h1 q = load h q" if "q < length (structs h)" for q
    using inv that by (rule load_append_arrays)
  have "Remove (load h p) vs = Inr s'" using s'(1) by (simp only: vals l1 [OF p])
  moreover have "Remove_call h p vs = Inr (store ?h1 p s')"
    using s'(2) p by (simp add: Remove_call_def alloc_array_def Remove_h_def)
  moreover have "load (store ?h1 p s') p = s'" using h1 p1 by (rule load_store_same)
  moreover have "load (store ?h1 p s') q = load h q" if "q < length (structs h) \<and> q \<noteq> p" for q
  proof -
    from that have q1: "q < length (structs ?h1)" and ne: "p \<noteq> q" by simp_all
    show ?thesis using load_store_other [OF h1 p1 q1 ne] l1 [of q] that by simp
  qed
  ultimately show ?thesis by blast
qed

lemma New_call_pure:
  assumes inv: "heap_inv h" and U: "0 \<le> universeSize"
  shows "\<exists>s' h'. New universeSize vs = Inr s' \<and>
           New_call h universeSize vs = Inr (length (structs h), h') \<and>
           load h' (length (structs h)) = s' \<and>
           (\<forall>q. q < length (structs h) \<longrightarrow> load h' q = load h q)"
proof -
  let ?h1 = "h\<lparr>arrays := arrays h @ [vs]\<rparr>"
  let ?a = "length (arrays h)"
  have h1: "heap_inv ?h1" using inv by (rule heap_inv_append_arrays)
  have a: "?a < length (arrays ?h1)" by simp
  have n: "length vs \<le> length (arrays ?h1 ! ?a)" by simp
  from New_h_correct [OF h1 U a n] obtain s' h' where
    s': "New universeSize (take (length vs) (arrays ?h1 ! ?a)) = Inr s'"
        "New_h ?h1 universeSize (?a, length vs) = Inr (length (structs ?h1), h')"
        "load h' (length (structs ?h1)) = s'"
        "take (length (structs ?h1)) (structs h') = structs ?h1"
        "take (length (arrays ?h1)) (arrays h') = arrays ?h1" by blast
  have "New universeSize vs = Inr s'" using s'(1) by simp
  moreover have "New_call h universeSize vs = Inr (length (structs h), h')"
    using s'(2) by (simp add: New_call_def alloc_array_def)
  moreover have "load h' (length (structs h)) = s'" using s'(3) by simp
  moreover have "load h' q = load h q" if "q < length (structs h)" for q
  proof -
    from that have q1: "q < length (structs ?h1)" by simp
    show ?thesis
      using frame_load(2) [OF h1 q1 s'(4,5)] load_append_arrays [OF inv that, of "[vs]"] by simp
  qed
  ultimately show ?thesis by blast
qed

lemma New_call_negative: "universeSize < 0 \<Longrightarrow> New_call h universeSize vs = Inl MakeSliceLenOutOfRange"
  by (simp add: New_call_def alloc_array_def New_h_def makeslice_def)

lemma reachable_heap_inv: "reachable h \<Longrightarrow> heap_inv h"
proof (induction rule: reachable.induct)
  case reachable_empty
  show ?case by (rule heap_inv_empty)
next
  case (reachable_New h universeSize vs p h')
  show ?case
  proof (cases "universeSize < 0")
    case True
    with reachable_New.hyps(2) show ?thesis by (simp add: New_call_negative)
  next
    case False
    then have "0 \<le> universeSize" by simp
    from New_call_inv [OF reachable_New.IH this, of vs] reachable_New.hyps(2)
    show ?thesis by auto
  qed
next
  case (reachable_Add h p vs h')
  from Add_call_inv [OF reachable_Add.IH reachable_Add.hyps(2), of vs] reachable_Add.hyps(3)
  show ?case by auto
next
  case (reachable_Remove h p vs h')
  from Remove_call_inv [OF reachable_Remove.IH reachable_Remove.hyps(2), of vs]
    reachable_Remove.hyps(3)
  show ?case by auto
next
  case (reachable_Copy h p c h')
  from Copy_h_correct [OF reachable_Copy.IH reachable_Copy.hyps(2)] reachable_Copy.hyps(3)
  show ?case by auto
next
  case (reachable_Union_method h p q h')
  from Union_method_h_inv [OF reachable_Union_method.IH reachable_Union_method.hyps(2,3)]
    reachable_Union_method.hyps(4)
  show ?case by auto
next
  case (reachable_Difference_method h p q h')
  from Difference_method_h_inv [OF reachable_Difference_method.IH
      reachable_Difference_method.hyps(2,3)] reachable_Difference_method.hyps(4)
  show ?case by auto
next
  case (reachable_Union h p q r h')
  from Union_h_correct [OF reachable_Union.IH reachable_Union.hyps(2,3)] reachable_Union.hyps(4)
  show ?case by auto
next
  case (reachable_Difference h p q r h')
  from Difference_h_correct [OF reachable_Difference.IH reachable_Difference.hyps(2,3)]
    reachable_Difference.hyps(4)
  show ?case by auto
qed

text \<open>
  Claim C1. In every store reachable from the empty one by calls of \<open>New\<close>, \<open>Add\<close>,
  \<open>Remove\<close>, \<open>Union\<close> and \<open>Difference\<close> (and \<open>Copy\<close>), every set satisfies the
  representation invariant, \<open>Contains\<close> answers whether the value is among the first
  \<open>length\<close> slots of \<open>set\<close>, and a value is among them iff it lies in the universe,
  its slot in \<open>keys\<close> is below \<open>length\<close> and \<open>set\<close> holds the value at that slot.
\<close>

theorem reachable_membership_invariant:
  assumes r: "reachable h" and p: "p < length (structs h)"
  shows "rep_inv (load h p) \<and>
         (\<forall>v. Contains_h h p v = Inr (v \<in> set (members (load h p)))) \<and>
         (\<forall>v. (v \<in> set (members (load h p))) =
                (0 \<le> v \<and> v < UniverseSize (load h p) \<and>
                 keys (load h p) ! nat v < length' (load h p) \<and>
                 set' (load h p) ! nat (keys (load h p) ! nat v) = v))"
proof -
  have inv: "rep_inv (load h p)"
    using reachable_heap_inv [OF r] p by (rule heap_inv_fields(4))
  have c: "Contains_h h p v = Inr (v \<in> set (members (load h p)))" for v
    using p inv by (simp add: Contains_h_def Contains_members)
  have "(v \<in> set (members (load h p))) =
                (0 \<le> v \<and> v < UniverseSize (load h p) \<and>
                 keys (load h p) ! nat v < length' (load h p) \<and>
                 set' (load h p) ! nat (keys (load h p) ! nat v) = v)" for v
    using Contains_members [OF inv, of v] Contains_spec [OF inv, of v] by simp
  with inv c show ?thesis by blast
qed

theorem reachable_membership_invariant_witness:
  "reachable \<lparr>arrays = [[1, 2, 4], [0, 0, 1, 0, 1], [1, 4, 4, 0, 0], [2]],
              structs = [\<lparr>length_field = 2, keys_field = 1, set_field = 2\<rparr>]\<rparr> \<and>
   rep_inv \<lparr>length' = 2, keys = [0, 0, 1, 0, 1], set' = [1, 4, 4, 0, 0]\<rparr> \<and>
   Contains_h \<lparr>arrays = [[1, 2, 4], [0, 0, 1, 0, 1], [1, 4, 4, 0, 0], [2]],
              structs = [\<lparr>length_field = 2, keys_field = 1, set_field = 2\<rparr>]\<rparr> 0 2 = Inr False \<and>
   Contains_h \<lparr>arrays = [[1, 2, 4], [0, 0, 1, 0, 1], [1, 4, 4, 0, 0], [2]],
              structs = [\<lparr>length_field = 2, keys_field = 1, set_field = 2\<rparr>]\<rparr> 0 4 = Inr True"
proof -
  let ?h1 = "\<lparr>arrays = [[1, 2, 4], [0, 0, 1, 0, 2], [1, 2, 4, 0, 0]],
              structs = [\<lparr>length_field = 3, keys_field = 1, set_field = 2\<rparr>]\<rparr>"
  let ?h2 = "\<lparr>arrays = [[1, 2, 4], [0, 0, 1, 0, 1], [1, 4, 4, 0, 0], [2]],
              structs = [\<lparr>length_field = 2, keys_field = 1, set_field = 2\<rparr>]\<rparr>"
  have n: "New_call \<lparr>arrays = [], structs = []\<rparr> 5 [1, 2, 4] = Inr (0, ?h1)"
    by code_simp
  have r1: "reachable ?h1" using reachable_empty n by (rule reachable_New)
  have p1: "0 < length (structs ?h1)" by simp
  have rm: "Remove_call ?h1 0 [2] = Inr ?h2" by code_simp
  have r2: "reachable ?h2" using r1 p1 rm by (rule reachable_Remove)
  have p2: "0 < length (structs ?h2)" by simp
  have l: "load ?h2 0 = \<lparr>length' = 2, keys = [0, 0, 1, 0, 1], set' = [1, 4, 4, 0, 0]\<rparr>"
    by (simp add: load_def)
  have m: "members (load ?h2 0) = [1, 4]" unfolding l by (simp add: members_def)
  note t = reachable_membership_invariant [OF r2 p2]
  have "rep_inv \<lparr>length' = 2, keys = [0, 0, 1, 0, 1], set' = [1, 4, 4, 0, 0]\<rparr>"
    using t unfolding l by blast
  moreover have "Contains_h ?h2 0 2 = Inr False" using t m by simp
  moreover have "Contains_h ?h2 0 4 = Inr True" using t m by simp
  ultimately show ?thesis using r2 by blast
qed


subsection \<open>The functions of two arguments leave their inputs alone\<close>

text \<open>
  Claim C8. In a store that satisfies its invariant, for pointers \<open>lhs\<close> and \<open>rhs\<close>,
  equal or not, \<open>Union(lhs, rhs)\<close> and \<open>Difference(lhs, rhs)\<close> return, and every struct
  and every array of the store before the call is the same after it; so the sets
  \<open>lhs\<close> and \<open>rhs\<close> point to are the same, universe size and members.
\<close>

theorem Union_Difference_leave_inputs:
  assumes inv: "heap_inv h" and l: "lhs < length (structs h)" and r: "rhs < length (structs h)"
  shows "\<exists>u hu d hd.
           Union_h h lhs rhs = Inr (u, hu) \<and> Difference_h h lhs rhs = Inr (d, hd) \<and>
           take (length (structs h)) (structs hu) = structs h \<and>
           take (length (arrays h)) (arrays hu) = arrays h \<and>
           load hu lhs = load h lhs \<and> load hu rhs = load h rhs \<and>
           take (length (structs h)) (structs hd) = structs h \<and>
           take (length (arrays h)) (arrays hd) = arrays h \<and>
           load hd lhs = load h lhs \<and> load hd rhs = load h rhs"
proof -
  from Union_h_correct [OF inv l r] obtain hu where
    u: "Union_h h lhs rhs = Inr (length (structs h), hu)"
       "take (length (structs h)) (structs hu) = structs h"
       "take (length (arrays h)) (arrays hu) = arrays h" by blast
  from Difference_h_correct [OF inv l r] obtain hd where
    d: "Difference_h h lhs rhs = Inr (length (structs h), hd)"
       "take (length (structs h)) (structs hd) = structs h"
       "take (length (arrays h)) (arrays hd) = arrays h" by blast
  have "load hu lhs = load h lhs" "load hu rhs = load h rhs"
    using frame_load(2) [OF inv l u(2,3)] frame_load(2) [OF inv r u(2,3)] by simp_all
  moreover have "load hd lhs = load h lhs" "load hd rhs = load h rhs"
    using frame_load(2) [OF inv l d(2,3)] frame_load(2) [OF inv r d(2,3)] by simp_all
  ultimately show ?thesis using u d by blast
qed

theorem Union_Difference_leave_inputs_witness:
  "heap_inv \<lparr>arrays = [[0, 1], [0, 1, 0], [0, 1, 0], [1, 2, 4], [0, 0, 1, 0, 2], [1, 2, 4, 0, 0]],
             structs = [\<lparr>length_field = 2, keys_field = 1, set_field = 2\<rparr>,
                        \<lparr>length_field = 3, keys_field = 4, set_field = 5\<rparr>]\<rparr> \<and>
   (\<exists>u hu d hd.
      Union_h \<lparr>arrays = [[0, 1], [0, 1, 0], [0, 1, 0], [1, 2, 4], [0, 0, 1, 0, 2], [1, 2, 4, 0, 0]],
               structs = [\<lparr>length_field = 2, keys_field = 1, set_field = 2\<rparr>,
                          \<lparr>length_field = 3, keys_field = 4, set_field = 5\<rparr>]\<rparr> 1 0 = Inr (u, hu) \<and>
      Difference_h \<lparr>arrays = [[0, 1], [0, 1, 0], [0, 1, 0], [1, 2, 4], [0, 0, 1, 0, 2], [1, 2, 4, 0, 0]],
               structs = [\<lparr>length_field = 2, keys_field = 1, set_field = 2\<rparr>,
                          \<lparr>length_field = 3, keys_field = 4, set_field = 5\<rparr>]\<rparr> 1 0 = Inr (d, hd) \<and>
      load hu 0 = \<lparr>length' = 2, keys = [0, 1, 0], set' = [0, 1, 0]\<rparr> \<and>
      load hu 1 = \<lparr>length' = 3, keys = [0, 0, 1, 0, 2], set' = [1, 2, 4, 0, 0]\<rparr> \<and>
      load hd 0 = \<lparr>length' = 2, keys = [0, 1, 0], set' = [0, 1, 0]\<rparr> \<and>
      load hd 1 = \<lparr>length' = 3, keys = [0, 0, 1, 0, 2], set' = [1, 2, 4, 0, 0]\<rparr>)"
proof -
  let ?h = "\<lparr>arrays = [[0, 1], [0, 1, 0], [0, 1, 0], [1, 2, 4], [0, 0, 1, 0, 2], [1, 2, 4, 0, 0]],
             structs = [\<lparr>length_field = 2, keys_field = 1, set_field = 2\<rparr>,
                        \<lparr>length_field = 3, keys_field = 4, set_field = 5\<rparr>]\<rparr>"
  have i: "heap_inv ?h" by code_simp
  have p: "1 < length (structs ?h)" and q: "0 < length (structs ?h)" by simp_all
  have l0: "load ?h 0 = \<lparr>length' = 2, keys = [0, 1, 0], set' = [0, 1, 0]\<rparr>"
    and l1: "load ?h 1 = \<lparr>length' = 3, keys = [0, 0, 1, 0, 2], set' = [1, 2, 4, 0, 0]\<rparr>"
    by (simp_all add: load_def)
  from Union_Difference_leave_inputs [OF i p q] show ?thesis
    unfolding l0 l1 using i by blast
qed

end
